theory Spec2Isabelle
  imports Main "HOL-Library.AList" "HOL-Library.Multiset"
begin

section \<open>Configuration manager (backend/core/plugins/config.py)\<close>

text \<open>
  Configuration values are what \<open>json.load\<close> and \<open>yaml.safe_load\<close> return: \<open>None\<close>,
  booleans, integers, floats, strings, lists and dictionaries. A Python dictionary keeps
  its keys in insertion order and holds every key once, so it is an association list
  updated with \<open>AList.update\<close> (replace in place, or append a new key at the end).
  Floats are only carried around, never computed with, so their type is left abstract.
\<close>

typedecl pyfloat

datatype cval =
    CNone
  | CBool bool
  | CInt int
  | CFloat pyfloat
  | CStr string
  | CList "cval list"
  | CDict "(string \<times> cval) list"

type_synonym cdict = "(string \<times> cval) list"


text \<open>
  The Python built-ins that \<open>_convert_value\<close> calls are parameters of the model:
  \<open>int(value)\<close>, \<open>float(value)\<close> and \<open>json.loads(value)\<close>, each \<open>None\<close> where the
  built-in raises (\<open>ValueError\<close>, \<open>json.JSONDecodeError\<close>).
\<close>

record py_builtins =
  py_int :: "string \<Rightarrow> int option"
  py_float :: "string \<Rightarrow> pyfloat option"
  json_loads :: "string \<Rightarrow> cval option"

subsection \<open>String helpers\<close>

definition lower_char :: "char \<Rightarrow> char" where
  "lower_char c =
     (case map_of (zip ''ABCDEFGHIJKLMNOPQRSTUVWXYZ'' ''abcdefghijklmnopqrstuvwxyz'') c of
        Some d \<Rightarrow> d
      | None \<Rightarrow> c)"

definition lower :: "string \<Rightarrow> string" where
  "lower s = map lower_char s"

definition startswith :: "string \<Rightarrow> string \<Rightarrow> bool" where
  "startswith s p = (take (length p) s = p)"



subsection \<open>\<open>_convert_value\<close>\<close>

definition convert_value :: "py_builtins \<Rightarrow> string \<Rightarrow> cval" where
  "convert_value py v =
     (if lower v \<in> set [''true'', ''yes'', ''1''] then CBool True
      else if lower v \<in> set [''false'', ''no'', ''0''] then CBool False
      else
        (case (if CHR ''.'' \<in> set v then map_option CFloat (py_float py v)
               else map_option CInt (py_int py v)) of
           Some n \<Rightarrow> n
         | None \<Rightarrow>
             (case (if startswith v ''{'' \<or> startswith v ''['' then json_loads py v
                    else None) of
                Some j \<Rightarrow> j
              | None \<Rightarrow> CStr v)))"

subsection \<open>\<open>_set_nested_value\<close> and \<open>_load_environment\<close>\<close>




subsection \<open>\<open>_merge_config\<close>\<close>



subsection \<open>Sources and \<open>load_all\<close>\<close>

text \<open>
  File time stamps, watcher tasks and change notifications are outputs of \<open>load_all\<close>
  that no property below reads; they are left out of the records.
\<close>

record config_source =
  name :: string
  path :: string
  format :: string
  priority :: int
  watch :: bool

record config_manager =
  config :: cdict
  sources :: "config_source list"
  defaults :: cdict




text \<open>A concrete choice of the built-ins, for evaluating examples.\<close>

definition example_builtins :: py_builtins where
  "example_builtins =
     \<lparr>py_int = (\<lambda>s. if s = ''42'' then Some 42 else None),
      py_float = (\<lambda>s. None),
      json_loads = (\<lambda>s. if s = ''[]'' then Some (CList []) else None)\<rparr>"











section \<open>Event bus (backend/core/plugins/events.py)\<close>

datatype event_priority = LOWEST | LOW | NORMAL | HIGH | HIGHEST

fun priority_value :: "event_priority \<Rightarrow> int" where
  "priority_value LOWEST = 0"
| "priority_value LOW = 25"
| "priority_value NORMAL = 50"
| "priority_value HIGH = 75"
| "priority_value HIGHEST = 100"

text \<open>
  Of an \<open>Event\<close> the bus itself reads the type only; time stamp, correlation id and
  metadata are carried along and not modelled.
\<close>

record event =
  etype :: string
  data :: string
  source :: string

text \<open>
  A Python callable is known to the bus by its identity: \<open>unsubscribe\<close> and the removal
  of one-shot handlers compare callables with \<open>==\<close>, and the dataclass \<open>EventHandler\<close>
  compares field by field. A callable is therefore a number, and an \<open>EventHandler\<close> a
  record of the five fields (\<open>hpriority\<close> is the field \<open>priority\<close>).
\<close>

record event_handler =
  handler :: nat
  hpriority :: event_priority
  async_handler :: bool
  once :: bool
  filter_func :: "nat option"

text \<open>
  What the callables do when the bus calls them: a handler returns (\<open>True\<close>) or raises
  (\<open>False\<close>); a filter returns a truth value or raises (\<open>None\<close>).
\<close>

record callables =
  handler_returns :: "nat \<Rightarrow> event \<Rightarrow> bool"
  filter_result :: "nat \<Rightarrow> event \<Rightarrow> bool option"
  is_coroutine :: "nat \<Rightarrow> bool"

record bus_stats =
  events_published :: nat
  handlers_executed :: nat
  errors :: nat

record event_bus =
  handlers :: "(string \<times> event_handler list) list"
  global_handlers :: "event_handler list"
  event_history :: "event list"
  max_history_size :: nat
  stats :: bus_stats

definition new_event_bus :: event_bus where
  "new_event_bus =
     \<lparr>handlers = [], global_handlers = [], event_history = [], max_history_size = 1000,
      stats = \<lparr>events_published = 0, handlers_executed = 0, errors = 0\<rparr>\<rparr>"

text \<open>\<open>sort(key=lambda h: h.priority.value, reverse=True)\<close>: stable, highest first.\<close>

definition sort_by_priority :: "event_handler list \<Rightarrow> event_handler list" where
  "sort_by_priority hs = sort_key (\<lambda>h. - priority_value (hpriority h)) hs"

definition handlers_for :: "event_bus \<Rightarrow> string \<Rightarrow> event_handler list" where
  "handlers_for bus event_type =
     (case map_of (handlers bus) event_type of None \<Rightarrow> [] | Some hs \<Rightarrow> hs)"

definition subscribe ::
  "callables \<Rightarrow> event_bus \<Rightarrow> string \<Rightarrow> nat \<Rightarrow> event_priority \<Rightarrow> bool \<Rightarrow> nat option \<Rightarrow> event_bus" where
  "subscribe cb bus event_type h prio once_flag flt =
     (let event_handler =
            \<lparr>handler = h, hpriority = prio, async_handler = is_coroutine cb h,
             once = once_flag, filter_func = flt\<rparr>
      in bus\<lparr>handlers :=
               AList.update event_type
                 (sort_by_priority (handlers_for bus event_type @ [event_handler]))
                 (handlers bus)\<rparr>)"

definition subscribe_global ::
  "callables \<Rightarrow> event_bus \<Rightarrow> nat \<Rightarrow> event_priority \<Rightarrow> nat option \<Rightarrow> event_bus" where
  "subscribe_global cb bus h prio flt =
     (let event_handler =
            \<lparr>handler = h, hpriority = prio, async_handler = is_coroutine cb h,
             once = False, filter_func = flt\<rparr>
      in bus\<lparr>global_handlers := sort_by_priority (global_handlers bus @ [event_handler])\<rparr>)"

text \<open>
  The loop of \<open>_execute_handlers\<close>. Its state is the statistics and the list
  \<open>handlers_to_remove\<close>; the third component records, in order, the handlers whose
  callable was called, which is what an observer of the bus sees.
\<close>

fun run_handlers ::
  "callables \<Rightarrow> event \<Rightarrow> event_handler list \<Rightarrow>
   bus_stats \<times> (string \<times> event_handler) list \<times> event_handler list \<Rightarrow>
   bus_stats \<times> (string \<times> event_handler) list \<times> event_handler list" where
  "run_handlers cb ev [] acc = acc"
| "run_handlers cb ev (h # hs) (st, to_remove, called) =
     run_handlers cb ev hs
       (case (case filter_func h of None \<Rightarrow> Some True | Some f \<Rightarrow> filter_result cb f ev) of
          None \<Rightarrow> (st\<lparr>errors := errors st + 1\<rparr>, to_remove, called)
        | Some False \<Rightarrow> (st, to_remove, called)
        | Some True \<Rightarrow>
            (if handler_returns cb (handler h) ev then
               (st\<lparr>handlers_executed := handlers_executed st + 1\<rparr>,
                (if once h then to_remove @ [(etype ev, h)] else to_remove),
                called @ [h])
             else (st\<lparr>errors := errors st + 1\<rparr>, to_remove, called @ [h])))"

fun remove_handlers :: "event_bus \<Rightarrow> (string \<times> event_handler) list \<Rightarrow> event_bus" where
  "remove_handlers bus [] = bus"
| "remove_handlers bus ((event_type, h) # rest) =
     remove_handlers
       (case map_of (handlers bus) event_type of
          Some hs \<Rightarrow>
            bus\<lparr>handlers := AList.update event_type (filter (\<lambda>x. x \<noteq> h) hs) (handlers bus)\<rparr>
        | None \<Rightarrow> bus\<lparr>global_handlers := filter (\<lambda>x. x \<noteq> h) (global_handlers bus)\<rparr>)
       rest"

definition handlers_to_execute :: "event_bus \<Rightarrow> event \<Rightarrow> event_handler list" where
  "handlers_to_execute bus ev =
     sort_by_priority (handlers_for bus (etype ev) @ global_handlers bus)"

definition execute_handlers :: "callables \<Rightarrow> event_bus \<Rightarrow> event \<Rightarrow> event_bus \<times> event_handler list" where
  "execute_handlers cb bus ev =
     (case run_handlers cb ev (handlers_to_execute bus ev) (stats bus, [], []) of
        (st, to_remove, called) \<Rightarrow> (remove_handlers (bus\<lparr>stats := st\<rparr>) to_remove, called))"

definition publish :: "callables \<Rightarrow> event_bus \<Rightarrow> event \<Rightarrow> event_bus \<times> event_handler list" where
  "publish cb bus ev =
     (let history = event_history bus @ [ev];
          history' = (if length history > max_history_size bus then tl history else history);
          st = stats bus
      in execute_handlers cb
           (bus\<lparr>event_history := history',
                stats := st\<lparr>events_published := events_published st + 1\<rparr>\<rparr>)
           ev)"

text \<open>Publishing a list of events one after the other, collecting the calls.\<close>

fun publish_all :: "callables \<Rightarrow> event_bus \<Rightarrow> event list \<Rightarrow> event_bus \<times> event_handler list" where
  "publish_all cb bus [] = (bus, [])"
| "publish_all cb bus (ev # evs) =
     (case publish cb bus ev of
        (bus', called) \<Rightarrow>
          (case publish_all cb bus' evs of (bus'', called') \<Rightarrow> (bus'', called @ called')))"

text \<open>The handler passes its filter: there is none, or it returns a true value.\<close>

definition passes_filter :: "callables \<Rightarrow> event \<Rightarrow> event_handler \<Rightarrow> bool" where
  "passes_filter cb ev h =
     (case filter_func h of None \<Rightarrow> True | Some f \<Rightarrow> filter_result cb f ev = Some True)"

text \<open>Two callables for examples: number 1 always raises, every other one returns.\<close>

definition ex_callables :: callables where
  "ex_callables =
     \<lparr>handler_returns = (\<lambda>h ev. h \<noteq> 1), filter_result = (\<lambda>f ev. Some True),
      is_coroutine = (\<lambda>h. False)\<rparr>"

definition ex_event :: "string \<Rightarrow> event" where
  "ex_event t = \<lparr>etype = t, data = [], source = ''unknown''\<rparr>"

text \<open>Two small buses: the priority test and the one-shot test of the repository's
  test suite, the latter with a handler that raises.\<close>

definition ex_priority_bus :: event_bus where
  "ex_priority_bus =
     subscribe ex_callables
       (subscribe ex_callables new_event_bus ''test.priority'' 2 LOW False None)
       ''test.priority'' 3 HIGH False None"

definition ex_once_bus :: event_bus where
  "ex_once_bus = subscribe ex_callables new_event_bus ''test.once'' 1 NORMAL True None"

definition ex_once_handler :: event_handler where
  "ex_once_handler =
     \<lparr>handler = 1, hpriority = NORMAL, async_handler = False, once = True, filter_func = None\<rparr>"

section \<open>Service container (backend/core/plugins/container.py)\<close>

text \<open>
  A service type is known by its name. An object made by the container is either what a
  factory returned or an instance of a class together with the keyword arguments its
  constructor received.
\<close>

type_synonym tname = string

datatype obj = FactoryObj nat | Instance tname "(string \<times> obj) list"

datatype lifetime = SINGLETON | TRANSIENT | SCOPED

text \<open>
  A constructor parameter as \<open>inspect.signature\<close> and \<open>get_type_hints\<close> show it: its
  name, its annotated type (\<open>None\<close> for \<open>inspect.Parameter.empty\<close>) and whether it has a
  default. Of the constructor body only whether it raises matters here.
\<close>

record param =
  pname :: string
  ptype :: "tname option"
  has_default :: bool

record class_decl =
  cname :: tname
  params :: "param list"
  init_raises :: bool

text \<open>
  An implementation is a callable that is not a class (a factory, which returns an
  object or raises, and is taken not to call the container itself), a class, or
  something that is neither.
\<close>

datatype implementation = Factory "obj option" | Class class_decl | NotCallable

record service_descriptor =
  service_type :: tname
  implementation :: implementation
  lifetime :: lifetime

text \<open>
  Every failure of the container is a \<open>ServiceResolutionError\<close>; the constructors are
  its messages. \<open>FailedToCreate\<close> carries the cause when that is itself a
  \<open>ServiceResolutionError\<close>, and \<open>None\<close> when the constructor body raised.
\<close>

datatype resolution_error =
    CircularDependency tname
  | NotRegistered tname
  | FactoryFailed tname
  | InvalidImplementation tname
  | CannotResolveParameter string tname
  | FailedToCreate tname "resolution_error option"

record container =
  services :: "(tname \<times> service_descriptor) list"
  singletons :: "(tname \<times> obj) list"
  building :: "tname set"

text \<open>
  \<open>resolve\<close> and the four methods under it call each other. The recursion is tied by
  passing \<open>self.resolve\<close> down as the argument \<open>res\<close>; in \<open>resolve\<close> itself the first
  argument bounds the nesting depth, and \<open>None\<close> means the bound was reached. The bound is
  shown below never to be reached when it exceeds the number of registered services.
\<close>

type_synonym 'a outcome = "((resolution_error + 'a) \<times> container) option"

fun resolve_params ::
  "(container \<Rightarrow> tname \<Rightarrow> obj outcome) \<Rightarrow> container \<Rightarrow> class_decl \<Rightarrow> param list \<Rightarrow>
   (string \<times> obj) list \<Rightarrow> (string \<times> obj) list outcome" where
  "resolve_params res c cls [] kwargs = Some (Inr kwargs, c)"
| "resolve_params res c cls (p # ps) kwargs =
     (case ptype p of
        None \<Rightarrow>
          (if has_default p then resolve_params res c cls ps kwargs
           else Some (Inl (CannotResolveParameter (pname p) (cname cls)), c))
      | Some param_type \<Rightarrow>
          (case res c param_type of
             None \<Rightarrow> None
           | Some (Inl e, c') \<Rightarrow>
               (if has_default p then resolve_params res c' cls ps kwargs else Some (Inl e, c'))
           | Some (Inr i, c') \<Rightarrow> resolve_params res c' cls ps (kwargs @ [(pname p, i)])))"

text \<open>Every exception inside \<open>_create_instance_with_injection\<close> is wrapped.\<close>

definition create_instance_with_injection ::
  "(container \<Rightarrow> tname \<Rightarrow> obj outcome) \<Rightarrow> container \<Rightarrow> class_decl \<Rightarrow> obj outcome" where
  "create_instance_with_injection res c cls =
     (case resolve_params res c cls (params cls) [] of
        None \<Rightarrow> None
      | Some (Inl e, c') \<Rightarrow> Some (Inl (FailedToCreate (cname cls) (Some e)), c')
      | Some (Inr kwargs, c') \<Rightarrow>
          (if init_raises cls then Some (Inl (FailedToCreate (cname cls) None), c')
           else Some (Inr (Instance (cname cls) kwargs), c')))"

definition create_instance ::
  "(container \<Rightarrow> tname \<Rightarrow> obj outcome) \<Rightarrow> container \<Rightarrow> service_descriptor \<Rightarrow> obj outcome" where
  "create_instance res c descriptor =
     (case implementation descriptor of
        Factory r \<Rightarrow>
          (case r of
             None \<Rightarrow> Some (Inl (FactoryFailed (service_type descriptor)), c)
           | Some i \<Rightarrow> Some (Inr i, c))
      | Class cls \<Rightarrow> create_instance_with_injection res c cls
      | NotCallable \<Rightarrow> Some (Inl (InvalidImplementation (service_type descriptor)), c))"

definition resolve_internal ::
  "(container \<Rightarrow> tname \<Rightarrow> obj outcome) \<Rightarrow> container \<Rightarrow> tname \<Rightarrow> obj outcome" where
  "resolve_internal res c t =
     (case map_of (services c) t of
        None \<Rightarrow> Some (Inl (NotRegistered t), c)
      | Some descriptor \<Rightarrow>
          (if lifetime descriptor = SINGLETON then
             (case map_of (singletons c) t of
                Some i \<Rightarrow> Some (Inr i, c)
              | None \<Rightarrow>
                  (case create_instance res c descriptor of
                     None \<Rightarrow> None
                   | Some (Inl e, c') \<Rightarrow> Some (Inl e, c')
                   | Some (Inr i, c') \<Rightarrow>
                       Some (Inr i, c'\<lparr>singletons := AList.update t i (singletons c')\<rparr>)))
           else create_instance res c descriptor))"

text \<open>
  \<open>resolve\<close>: the test of \<open>_building\<close> comes first and raises outside the \<open>try\<close>; the
  \<open>finally\<close> clause is the \<open>building c' - {t}\<close> applied to either outcome.
\<close>

fun resolve :: "nat \<Rightarrow> container \<Rightarrow> tname \<Rightarrow> obj outcome" where
  "resolve 0 c t = (if t \<in> building c then Some (Inl (CircularDependency t), c) else None)"
| "resolve (Suc n) c t =
     (if t \<in> building c then Some (Inl (CircularDependency t), c)
      else
        (case resolve_internal (resolve n) (c\<lparr>building := insert t (building c)\<rparr>) t of
           None \<Rightarrow> None
         | Some (r, c') \<Rightarrow> Some (r, c'\<lparr>building := building c' - {t}\<rparr>)))"

text \<open>The registration methods; \<open>register_instance\<close> also fills the singleton cache.\<close>

definition register :: "container \<Rightarrow> tname \<Rightarrow> implementation \<Rightarrow> lifetime \<Rightarrow> container" where
  "register c t impl lt =
     c\<lparr>services :=
         AList.update t \<lparr>service_type = t, implementation = impl, lifetime = lt\<rparr> (services c)\<rparr>"

definition register_singleton :: "container \<Rightarrow> tname \<Rightarrow> implementation \<Rightarrow> container" where
  "register_singleton c t impl = register c t impl SINGLETON"

definition register_transient :: "container \<Rightarrow> tname \<Rightarrow> implementation \<Rightarrow> container" where
  "register_transient c t impl = register c t impl TRANSIENT"

definition register_instance :: "container \<Rightarrow> tname \<Rightarrow> obj \<Rightarrow> container" where
  "register_instance c t i =
     register (c\<lparr>singletons := AList.update t i (singletons c)\<rparr>) t (Factory (Some i)) SINGLETON"

text \<open>
  A new container registers itself as a singleton, giving the container object (not a
  callable) as the implementation.
\<close>

definition new_container :: container where
  "new_container =
     register_singleton \<lparr>services = [], singletons = [], building = {}\<rparr>
       ''ServiceContainer'' NotCallable"

text \<open>The number of \<open>resolve\<close> frames that can still nest: registered types not being built.\<close>

definition unbuilt :: "container \<Rightarrow> nat" where
  "unbuilt c = card (fst ` set (services c) - building c)"

text \<open>A container with a class whose constructor asks for an instance of the class
  itself, and a singleton whose factory raises.\<close>

definition ex_self_ref :: class_decl where
  "ex_self_ref =
     \<lparr>cname = ''Node'',
      params = [\<lparr>pname = ''parent'', ptype = Some ''Node'', has_default = False\<rparr>],
      init_raises = False\<rparr>"

definition ex_container :: container where
  "ex_container =
     register_singleton (register_transient new_container ''Node'' (Class ex_self_ref))
       ''Db'' (Factory None)"

text \<open>
  Two predicates on a resolver, for the proofs: it leaves the building set and the
  registrations as it found them; it returns on every container with the building set
  and the registrations of the given one.
\<close>

definition keeps :: "(container \<Rightarrow> tname \<Rightarrow> obj outcome) \<Rightarrow> bool" where
  "keeps res = (\<forall>c t r c'. res c t = Some (r, c') \<longrightarrow> building c' = building c \<and> services c' = services c)"

definition total_at :: "(container \<Rightarrow> tname \<Rightarrow> obj outcome) \<Rightarrow> container \<Rightarrow> bool" where
  "total_at res c =
     (\<forall>c' t. building c' = building c \<and> services c' = services c \<longrightarrow> res c' t \<noteq> None)"

section \<open>Plugin discovery (backend/core/plugins/discovery.py)\<close>

text \<open>
  Of a \<open>PluginManifest\<close> dependency resolution reads the list of dependencies only;
  description, author, licence, entry point, schema and the flags are left out.
  \<open>_discovered_plugins\<close> is a dictionary from plugin names to manifests.
\<close>

record plugin_manifest =
  manifest_name :: string
  manifest_version :: string
  dependencies :: "string list"

type_synonym discovered = "(string \<times> plugin_manifest) list"

text \<open>The two messages of \<open>PluginDependencyError\<close> raised by \<open>resolve_dependencies\<close>.\<close>

datatype dependency_error =
    CircularDependencyInvolving string
  | DependencyNotFound string

text \<open>The three local variables of \<open>resolve_dependencies\<close> that \<open>visit\<close> updates.\<close>

record visit_state =
  visited :: "string set"
  temp_visited :: "string set"
  result :: "string list"

type_synonym visit_outcome = "(dependency_error + visit_state) option"

text \<open>
  The loop \<open>for dep in manifest.dependencies: visit(dep)\<close>, with the recursive call
  passed in as \<open>vis\<close>. An exception ends the loop and, with it, the whole resolution.
\<close>

fun visit_deps ::
  "(visit_state \<Rightarrow> string \<Rightarrow> visit_outcome) \<Rightarrow> visit_state \<Rightarrow> string list \<Rightarrow> visit_outcome" where
  "visit_deps vis st [] = Some (Inr st)"
| "visit_deps vis st (dep # deps) =
     (case vis st dep of
        None \<Rightarrow> None
      | Some (Inl e) \<Rightarrow> Some (Inl e)
      | Some (Inr st') \<Rightarrow> visit_deps vis st' deps)"

text \<open>
  The nested function \<open>visit\<close>. Its first argument bounds the nesting depth of the
  recursion; \<open>None\<close> means the bound was reached, which is shown below not to happen with
  the bound that \<open>resolve_dependencies\<close> passes.
\<close>

fun visit :: "nat \<Rightarrow> discovered \<Rightarrow> visit_state \<Rightarrow> string \<Rightarrow> visit_outcome" where
  "visit 0 discovered_plugins st plugin_name =
     (if plugin_name \<in> temp_visited st then Some (Inl (CircularDependencyInvolving plugin_name))
      else if plugin_name \<in> visited st then Some (Inr st)
      else if map_of discovered_plugins plugin_name = None
        then Some (Inl (DependencyNotFound plugin_name))
      else None)"
| "visit (Suc n) discovered_plugins st plugin_name =
     (if plugin_name \<in> temp_visited st then Some (Inl (CircularDependencyInvolving plugin_name))
      else if plugin_name \<in> visited st then Some (Inr st)
      else
        (case map_of discovered_plugins plugin_name of
           None \<Rightarrow> Some (Inl (DependencyNotFound plugin_name))
         | Some manifest \<Rightarrow>
             (case visit_deps (visit n discovered_plugins)
                     (st\<lparr>temp_visited := insert plugin_name (temp_visited st)\<rparr>)
                     (dependencies manifest) of
                None \<Rightarrow> None
              | Some (Inl e) \<Rightarrow> Some (Inl e)
              | Some (Inr st') \<Rightarrow>
                  Some (Inr (st'\<lparr>temp_visited := temp_visited st' - {plugin_name},
                                  visited := insert plugin_name (visited st'),
                                  result := result st' @ [plugin_name]\<rparr>)))))"

text \<open>The loop over the requested names.\<close>

fun visit_all :: "nat \<Rightarrow> discovered \<Rightarrow> visit_state \<Rightarrow> string list \<Rightarrow> visit_outcome" where
  "visit_all n discovered_plugins st [] = Some (Inr st)"
| "visit_all n discovered_plugins st (plugin_name # rest) =
     (if plugin_name \<notin> visited st then
        (case visit n discovered_plugins st plugin_name of
           None \<Rightarrow> None
         | Some (Inl e) \<Rightarrow> Some (Inl e)
         | Some (Inr st') \<Rightarrow> visit_all n discovered_plugins st' rest)
      else visit_all n discovered_plugins st rest)"

definition resolve_dependencies ::
  "discovered \<Rightarrow> string list \<Rightarrow> (dependency_error + string list) option" where
  "resolve_dependencies discovered_plugins plugin_names =
     (case visit_all (Suc (length discovered_plugins)) discovered_plugins
             \<lparr>visited = {}, temp_visited = {}, result = []\<rparr> plugin_names of
        None \<Rightarrow> None
      | Some (Inl e) \<Rightarrow> Some (Inl e)
      | Some (Inr st) \<Rightarrow> Some (Inr (result st)))"

text \<open>The dependencies a discovered plugin lists, and the dependency relation.\<close>

definition deps_of :: "discovered \<Rightarrow> string \<Rightarrow> string list" where
  "deps_of discovered_plugins p =
     (case map_of discovered_plugins p of None \<Rightarrow> [] | Some manifest \<Rightarrow> dependencies manifest)"

definition depends_on :: "discovered \<Rightarrow> (string \<times> string) set" where
  "depends_on discovered_plugins = {(p, d). d \<in> set (deps_of discovered_plugins p)}"

section \<open>Plugin manager (backend/core/plugins/manager.py)\<close>

text \<open>
  A plugin class as the manager sees it: the class name, the name and version its
  \<open>metadata\<close> property gives, which of the three capability interfaces \<open>isinstance\<close>
  finds, and whether the constructor, \<open>initialize\<close> (which reads the configuration) and
  \<open>start\<close> raise. A plugin object is an instance of a class; the number tells objects
  of one class apart, as Python's object identity does.
\<close>

record plugin_class =
  class_name :: string
  metadata_name :: string
  metadata_version :: string
  is_agent :: bool
  is_embedding :: bool
  is_memory :: bool
  constructor_raises :: bool
  initialize_raises :: "cdict \<Rightarrow> bool"
  start_raises :: bool

record plugin_instance =
  instance_of :: plugin_class
  instance_id :: nat

text \<open>
  What lies outside the manager: the discovered manifests, the import of a plugin's
  module with the search for its class (\<open>None\<close> where that raises), and
  \<open>_get_plugin_config\<close>, which reads the configuration manager (\<open>None\<close> where it raises).
\<close>

record plugin_env =
  discovered_plugins :: discovered
  load_module :: "string \<Rightarrow> plugin_class option"
  get_plugin_config :: "string \<Rightarrow> cdict option"

text \<open>\<open>PluginDiscovery.load_plugin\<close>: a plugin that was not discovered is not loaded.\<close>

definition discovery_load_plugin :: "plugin_env \<Rightarrow> string \<Rightarrow> plugin_class option" where
  "discovery_load_plugin env plugin_name =
     (if map_of (discovered_plugins env) plugin_name = None then None
      else load_module env plugin_name)"

text \<open>
  The step of \<open>load_plugin\<close> that raised, kept as the cause of the \<open>PluginLoadError\<close>;
  and the exceptions that \<open>load_plugin\<close> and \<open>load_plugins\<close> raise.
\<close>

datatype load_step = ClassLoading | Instantiation | Configuration | Initialize | Start

datatype plugin_error =
    PluginAlreadyLoadedError string
  | PluginLoadError string load_step
  | PluginDependencyError dependency_error

text \<open>
  A \<open>PluginEvent\<close> handed to \<open>event_bus.publish\<close>: its type and the plugin's name.
  \<open>publish\<close> returns also where a handler raises (see the event bus), so the manager's
  use of the bus is the list of the events it has published.
\<close>

record plugin_event =
  event_type :: string
  event_plugin_name :: string

text \<open>
  The state of a \<open>PluginManager\<close>. \<open>registered_services\<close> is what the manager has put
  into the service container with \<open>register_instance\<close>, by type name;
  \<open>constructor_calls\<close> lists, in order, the plugins whose class has been called to make
  an instance.
\<close>

record plugin_manager =
  plugins :: "(string \<times> plugin_instance) list"
  plugin_classes :: "(string \<times> plugin_class) list"
  plugin_configs :: "(string \<times> cdict) list"
  load_order :: "string list"
  agents :: "(string \<times> plugin_instance) list"
  embeddings :: "(string \<times> plugin_instance) list"
  memory_providers :: "(string \<times> plugin_instance) list"
  registered_services :: "(string \<times> plugin_instance) list"
  published :: "plugin_event list"
  constructor_calls :: "string list"

definition new_plugin_manager :: plugin_manager where
  "new_plugin_manager =
     \<lparr>plugins = [], plugin_classes = [], plugin_configs = [], load_order = [],
      agents = [], embeddings = [], memory_providers = [], registered_services = [],
      published = [], constructor_calls = []\<rparr>"

definition publish_plugin_event :: "plugin_manager \<Rightarrow> string \<Rightarrow> string \<Rightarrow> plugin_manager" where
  "publish_plugin_event m t plugin_name =
     m\<lparr>published := published m @ [\<lparr>event_type = t, event_plugin_name = plugin_name\<rparr>]\<rparr>"

definition register_plugin_by_type :: "plugin_manager \<Rightarrow> plugin_instance \<Rightarrow> plugin_manager" where
  "register_plugin_by_type m plugin =
     (if is_agent (instance_of plugin) then
        m\<lparr>agents := AList.update (metadata_name (instance_of plugin)) plugin (agents m)\<rparr>
      else if is_embedding (instance_of plugin) then
        m\<lparr>embeddings := AList.update (metadata_name (instance_of plugin)) plugin (embeddings m)\<rparr>
      else if is_memory (instance_of plugin) then
        m\<lparr>memory_providers :=
            AList.update (metadata_name (instance_of plugin)) plugin (memory_providers m)\<rparr>
      else m)"

definition unregister_plugin_by_type :: "plugin_manager \<Rightarrow> plugin_instance \<Rightarrow> plugin_manager" where
  "unregister_plugin_by_type m plugin =
     m\<lparr>agents := AList.delete (metadata_name (instance_of plugin)) (agents m),
       embeddings := AList.delete (metadata_name (instance_of plugin)) (embeddings m),
       memory_providers := AList.delete (metadata_name (instance_of plugin)) (memory_providers m)\<rparr>"

definition container_register_instance ::
  "plugin_manager \<Rightarrow> string \<Rightarrow> plugin_instance \<Rightarrow> plugin_manager" where
  "container_register_instance m service plugin =
     m\<lparr>registered_services := AList.update service plugin (registered_services m)\<rparr>"

definition register_plugin_services :: "plugin_manager \<Rightarrow> plugin_instance \<Rightarrow> plugin_manager" where
  "register_plugin_services m plugin =
     (let m' = container_register_instance m (class_name (instance_of plugin)) plugin in
      if is_agent (instance_of plugin) then container_register_instance m' ''IAgentPlugin'' plugin
      else if is_embedding (instance_of plugin) then
        container_register_instance m' ''IEmbeddingPlugin'' plugin
      else if is_memory (instance_of plugin) then
        container_register_instance m' ''IMemoryPlugin'' plugin
      else m')"

definition cleanup_failed_plugin :: "plugin_manager \<Rightarrow> string \<Rightarrow> plugin_manager" where
  "cleanup_failed_plugin m plugin_name =
     m\<lparr>plugins := AList.delete plugin_name (plugins m),
       plugin_configs := AList.delete plugin_name (plugin_configs m),
       plugin_classes := AList.delete plugin_name (plugin_classes m),
       load_order := remove1 plugin_name (load_order m)\<rparr>"

text \<open>The \<open>except\<close> branch of \<open>load_plugin\<close>: publish, clean up, raise.\<close>

definition load_failed ::
  "plugin_manager \<Rightarrow> string \<Rightarrow> load_step \<Rightarrow> (plugin_error + plugin_instance) \<times> plugin_manager" where
  "load_failed m plugin_name step =
     (Inl (PluginLoadError plugin_name step),
      cleanup_failed_plugin (publish_plugin_event m ''plugin.error'' plugin_name) plugin_name)"

text \<open>The part of the \<open>try\<close> block of \<open>load_plugin\<close> that follows \<open>initialize\<close>.\<close>

definition store_and_start ::
  "plugin_manager \<Rightarrow> string \<Rightarrow> plugin_instance \<Rightarrow> cdict \<Rightarrow>
   (plugin_error + plugin_instance) \<times> plugin_manager" where
  "store_and_start m plugin_name plugin_instance plugin_config =
     (let m1 = m\<lparr>plugins := AList.update plugin_name plugin_instance (plugins m),
                  plugin_configs := AList.update plugin_name plugin_config (plugin_configs m),
                  load_order := load_order m @ [plugin_name]\<rparr>;
          m2 = register_plugin_by_type m1 plugin_instance;
          m3 = register_plugin_services m2 plugin_instance
      in if start_raises (instance_of plugin_instance) then load_failed m3 plugin_name Start
         else (Inr plugin_instance, publish_plugin_event m3 ''plugin.loaded'' plugin_name))"

definition load_plugin ::
  "plugin_env \<Rightarrow> plugin_manager \<Rightarrow> string \<Rightarrow> (plugin_error + plugin_instance) \<times> plugin_manager" where
  "load_plugin env m plugin_name =
     (if map_of (plugins m) plugin_name \<noteq> None then (Inl (PluginAlreadyLoadedError plugin_name), m)
      else
        (let m1 = publish_plugin_event m ''plugin.loading'' plugin_name in
         case discovery_load_plugin env plugin_name of
           None \<Rightarrow> load_failed m1 plugin_name ClassLoading
         | Some plugin_class \<Rightarrow>
             (let m2 = m1\<lparr>plugin_classes := AList.update plugin_name plugin_class (plugin_classes m1),
                          constructor_calls := constructor_calls m1 @ [plugin_name]\<rparr>;
                  plugin_instance =
                    \<lparr>instance_of = plugin_class, instance_id = length (constructor_calls m1)\<rparr>
              in if constructor_raises plugin_class then load_failed m2 plugin_name Instantiation
                 else
                   (case get_plugin_config env plugin_name of
                      None \<Rightarrow> load_failed m2 plugin_name Configuration
                    | Some plugin_config \<Rightarrow>
                        (if initialize_raises plugin_class plugin_config
                         then load_failed m2 plugin_name Initialize
                         else store_and_start m2 plugin_name plugin_instance plugin_config)))))"

text \<open>\<open>load_plugins\<close>: the load order first, then the plugins not yet loaded, in that
  order; the first exception ends the loop and is raised again.\<close>

fun load_in_order ::
  "plugin_env \<Rightarrow> plugin_manager \<Rightarrow> string list \<Rightarrow> (plugin_error + unit) \<times> plugin_manager" where
  "load_in_order env m [] = (Inr (), m)"
| "load_in_order env m (plugin_name # rest) =
     (if map_of (plugins m) plugin_name = None then
        (case load_plugin env m plugin_name of
           (Inl e, m') \<Rightarrow> (Inl e, m')
         | (Inr plugin, m') \<Rightarrow> load_in_order env m' rest)
      else load_in_order env m rest)"

definition load_plugins ::
  "plugin_env \<Rightarrow> plugin_manager \<Rightarrow> string list \<Rightarrow>
   ((plugin_error + unit) \<times> plugin_manager) option" where
  "load_plugins env m plugin_names =
     (case resolve_dependencies (discovered_plugins env) plugin_names of
        None \<Rightarrow> None
      | Some (Inl e) \<Rightarrow> Some (Inl (PluginDependencyError e), m)
      | Some (Inr order) \<Rightarrow> Some (load_in_order env m order))"

text \<open>The type registries that hold an entry under a name.\<close>

definition registries_holding :: "plugin_manager \<Rightarrow> string \<Rightarrow> string list" where
  "registries_holding m n =
     (if map_of (agents m) n \<noteq> None then [''agents''] else []) @
     (if map_of (embeddings m) n \<noteq> None then [''embeddings''] else []) @
     (if map_of (memory_providers m) n \<noteq> None then [''memory_providers''] else [])"

text \<open>An installation for examples: an agent whose \<open>start\<close> raises, a plugin that is
  agent and memory provider at once, and a plugin with none of the three interfaces.\<close>

definition ex_manifest :: "string \<Rightarrow> string list \<Rightarrow> string \<times> plugin_manifest" where
  "ex_manifest n ds = (n, \<lparr>manifest_name = n, manifest_version = ''1.0.0'', dependencies = ds\<rparr>)"

definition ex_class :: "string \<Rightarrow> bool \<Rightarrow> bool \<Rightarrow> bool \<Rightarrow> bool \<Rightarrow> plugin_class" where
  "ex_class n agent embedding memory_provider failing =
     \<lparr>class_name = n @ ''Plugin'', metadata_name = n, metadata_version = ''1.0.0'',
      is_agent = agent, is_embedding = embedding, is_memory = memory_provider,
      constructor_raises = False, initialize_raises = (\<lambda>config. False),
      start_raises = failing\<rparr>"

definition ex_env :: plugin_env where
  "ex_env =
     \<lparr>discovered_plugins =
        [ex_manifest ''echo'' [], ex_manifest ''hybrid'' [''tools''], ex_manifest ''tools'' []],
      load_module = (\<lambda>n.
        if n = ''echo'' then Some (ex_class ''echo'' True False False True)
        else if n = ''hybrid'' then Some (ex_class ''hybrid'' True False True False)
        else if n = ''tools'' then Some (ex_class ''tools'' False False False False)
        else None),
      get_plugin_config = (\<lambda>n. Some [])\<rparr>"

text \<open>
  Predicates for the proofs about \<open>resolve_dependencies\<close>. A load order lists
  discovered plugins only, each after all the dependencies it lists.
\<close>

definition deps_first :: "discovered \<Rightarrow> string list \<Rightarrow> bool" where
  "deps_first disc xs =
     (\<forall>i < length xs. map_of disc (xs ! i) \<noteq> None \<and>
        set (deps_of disc (xs ! i)) \<subseteq> set (take i xs))"

text \<open>A visitor leaves \<open>temp_visited\<close> as it found it when it returns.\<close>

definition keeps_temp :: "(visit_state \<Rightarrow> string \<Rightarrow> visit_outcome) \<Rightarrow> bool" where
  "keeps_temp vis = (\<forall>st p st'. vis st p = Some (Inr st') \<longrightarrow> temp_visited st' = temp_visited st)"

text \<open>A visitor ends (it returns or raises) in every state with the given \<open>temp_visited\<close>.\<close>

definition ends_at :: "(visit_state \<Rightarrow> string \<Rightarrow> visit_outcome) \<Rightarrow> string set \<Rightarrow> bool" where
  "ends_at vis temp = (\<forall>st p. temp_visited st = temp \<longrightarrow> vis st p \<noteq> None)"

text \<open>The state between two visits: \<open>visited\<close> holds the names of \<open>result\<close>, no name
  twice, none of them under visit, each after its dependencies.\<close>

definition state_ok :: "discovered \<Rightarrow> visit_state \<Rightarrow> bool" where
  "state_ok disc st =
     (visited st = set (result st) \<and> distinct (result st) \<and>
      temp_visited st \<inter> visited st = {} \<and> deps_first disc (result st))"

text \<open>A visitor that returns keeps the state well-formed, has visited the name it was
  given and has only added to the end of \<open>result\<close>, and only names that the given name
  depends on, directly or not, or the name itself.\<close>

definition visit_ok :: "discovered \<Rightarrow> (visit_state \<Rightarrow> string \<Rightarrow> visit_outcome) \<Rightarrow> bool" where
  "visit_ok disc vis =
     (\<forall>st p st'. state_ok disc st \<and> vis st p = Some (Inr st') \<longrightarrow>
        state_ok disc st' \<and> p \<in> visited st' \<and>
        (\<exists>ys. result st' = result st @ ys \<and>
              set ys \<subseteq> (depends_on disc)\<^sup>* `` {p}))"

text \<open>What an error says, for a visit that started at \<open>p\<close>: the plugin named lies on a
  dependency cycle, or it is not discovered; and \<open>p\<close> depends on it or is it.\<close>

definition error_ok :: "discovered \<Rightarrow> string \<Rightarrow> dependency_error \<Rightarrow> bool" where
  "error_ok disc p e =
     (case e of
        CircularDependencyInvolving c \<Rightarrow>
          (c, c) \<in> (depends_on disc)\<^sup>+ \<and> (p, c) \<in> (depends_on disc)\<^sup>*
      | DependencyNotFound d \<Rightarrow>
          map_of disc d = None \<and> (p, d) \<in> (depends_on disc)\<^sup>*)"

text \<open>A visitor raises rightly where every name under visit depends on the name given.\<close>

definition fails_ok :: "discovered \<Rightarrow> (visit_state \<Rightarrow> string \<Rightarrow> visit_outcome) \<Rightarrow> bool" where
  "fails_ok disc vis =
     (\<forall>st p e. (\<forall>t \<in> temp_visited st. (t, p) \<in> (depends_on disc)\<^sup>+) \<and>
        vis st p = Some (Inl e) \<longrightarrow> error_ok disc p e)"


definition ex_cyclic_env :: plugin_env where
  "ex_cyclic_env =
     \<lparr>discovered_plugins =
        [ex_manifest ''a'' [''b''], ex_manifest ''b'' [''a''], ex_manifest ''c'' [''missing'']],
      load_module = (\<lambda>n. Some (ex_class n False False False False)),
      get_plugin_config = (\<lambda>n. Some [])\<rparr>"

text \<open>Every plugin object in a type registry was made by one of the constructor calls
  the manager has made so far.\<close>

definition registered_objects_made :: "plugin_manager \<Rightarrow> bool" where
  "registered_objects_made m =
     (\<forall>q \<in> ran (map_of (agents m)) \<union> ran (map_of (embeddings m)) \<union>
            ran (map_of (memory_providers m)).
        instance_id q < length (constructor_calls m))"

section \<open>Properties of the configuration manager\<close>

text \<open>
  C9. Boolean recognition comes before numeric parsing in \<open>_convert_value\<close>: a string
  whose lower-case form is \<open>true\<close>, \<open>yes\<close> or \<open>1\<close> becomes \<open>True\<close>, one whose lower-case
  form is \<open>false\<close>, \<open>no\<close> or \<open>0\<close> becomes \<open>False\<close>, so \<open>"1"\<close> and \<open>"0"\<close> never become
  the integers 1 and 0, whatever \<open>int\<close> would make of them. Every other string is tried
  as a float (when it holds a dot) or an integer, then as JSON when it starts with a
  brace or a bracket, and is kept as the raw string otherwise.
\<close>

theorem convert_value_bool_first:
  "(lower t \<in> {''true'', ''yes'', ''1''} \<longrightarrow> convert_value py t = CBool True) \<and>
   (lower f \<in> {''false'', ''no'', ''0''} \<longrightarrow> convert_value py f = CBool False) \<and>
   convert_value py ''1'' = CBool True \<and> convert_value py ''1'' \<noteq> CInt 1 \<and>
   convert_value py ''0'' = CBool False \<and> convert_value py ''0'' \<noteq> CInt 0 \<and>
   (lower v \<notin> {''true'', ''yes'', ''1'', ''false'', ''no'', ''0''} \<longrightarrow>
      convert_value py v =
        (case (if CHR ''.'' \<in> set v then map_option CFloat (py_float py v)
               else map_option CInt (py_int py v)) of
           Some n \<Rightarrow> n
         | None \<Rightarrow>
             (if (startswith v ''{'' \<or> startswith v ''['') \<and> json_loads py v \<noteq> None
              then the (json_loads py v) else CStr v)))"
  by (auto simp: convert_value_def lower_def lower_char_def split: option.splits)

theorem convert_value_bool_first_witness:
  "lower ''Yes'' \<in> {''true'', ''yes'', ''1''} \<and>
   convert_value example_builtins ''Yes'' = CBool True \<and>
   lower ''FALSE'' \<in> {''false'', ''no'', ''0''} \<and>
   convert_value example_builtins ''FALSE'' = CBool False \<and>
   lower ''42'' \<notin> {''true'', ''yes'', ''1'', ''false'', ''no'', ''0''} \<and>
   convert_value example_builtins ''42'' = CInt 42"
  using convert_value_bool_first [of "''Yes''" example_builtins "''FALSE''" "''42''"]
  by (simp add: lower_def lower_char_def example_builtins_def)



















section \<open>Properties of the event bus\<close>

lemma called_run_handlers:
  "snd (snd (run_handlers cb ev hs (st, rm, called))) = called @ filter (passes_filter cb ev) hs"
proof (induction hs arbitrary: st rm called)
  case Nil
  then show ?case by simp
next
  case (Cons h hs)
  show ?case
    by (simp add: Cons.IH passes_filter_def split: option.splits bool.splits)
qed

lemma called_execute_handlers:
  "snd (execute_handlers cb bus ev) = filter (passes_filter cb ev) (handlers_to_execute bus ev)"
proof -
  obtain st rm called
    where r: "run_handlers cb ev (handlers_to_execute bus ev) (stats bus, [], []) = (st, rm, called)"
    by (cases "run_handlers cb ev (handlers_to_execute bus ev) (stats bus, [], [])")
  from called_run_handlers [of cb ev "handlers_to_execute bus ev" "stats bus" "[]" "[]"]
  have "called = filter (passes_filter cb ev) (handlers_to_execute bus ev)"
    by (simp add: r)
  then show ?thesis
    by (simp add: execute_handlers_def r)
qed

lemma sorted_wrt_sort_by_priority:
  "sorted_wrt (\<lambda>a b. priority_value (hpriority b) \<le> priority_value (hpriority a)) (sort_by_priority hs)"
proof -
  have "sorted (map (\<lambda>h. - priority_value (hpriority h)) (sort_by_priority hs))"
    by (simp add: sort_by_priority_def)
  then show ?thesis
    by (simp add: sorted_map)
qed

text \<open>
  C6. One publish calls the handlers of the event's type together with the global
  handlers, sorted by descending priority, one after the other, leaving out those whose
  filter rejects the event (or raises). The calls are therefore in descending priority
  order, and a call of a HIGH handler comes before any call of a LOW handler.
\<close>

theorem publish_priority_order:
  "snd (publish cb bus ev) =
     filter (passes_filter cb ev)
       (sort_by_priority (handlers_for bus (etype ev) @ global_handlers bus)) \<and>
   sorted_wrt (\<lambda>a b. priority_value (hpriority b) \<le> priority_value (hpriority a))
     (snd (publish cb bus ev)) \<and>
   (i < length (snd (publish cb bus ev)) \<and> j < length (snd (publish cb bus ev)) \<and>
    hpriority (snd (publish cb bus ev) ! i) = HIGH \<and>
    hpriority (snd (publish cb bus ev) ! j) = LOW \<longrightarrow> i < j)"
proof -
  let ?called = "snd (publish cb bus ev)"
  let ?le = "\<lambda>a b. priority_value (hpriority b) \<le> priority_value (hpriority a)"
  have eq: "?called = filter (passes_filter cb ev)
       (sort_by_priority (handlers_for bus (etype ev) @ global_handlers bus))"
    by (simp add: publish_def Let_def called_execute_handlers handlers_to_execute_def handlers_for_def)
  have srt: "sorted_wrt ?le ?called"
    unfolding eq by (rule sorted_wrt_filter) (rule sorted_wrt_sort_by_priority)
  have "i < j"
    if "i < length ?called" "j < length ?called"
      "hpriority (?called ! i) = HIGH" "hpriority (?called ! j) = LOW"
  proof (rule ccontr)
    assume "\<not> i < j"
    with that have "j < i" by (cases "i = j") auto
    with srt that(1) have "?le (?called ! j) (?called ! i)"
      by (simp add: sorted_wrt_iff_nth_less)
    with that(3,4) show False by simp
  qed
  with eq srt show ?thesis by blast
qed

theorem publish_priority_order_witness:
  "snd (publish ex_callables ex_priority_bus (ex_event ''test.priority'')) =
     [\<lparr>handler = 3, hpriority = HIGH, async_handler = False, once = False, filter_func = None\<rparr>,
      \<lparr>handler = 2, hpriority = LOW, async_handler = False, once = False, filter_func = None\<rparr>] \<and>
   (0::nat) < length (snd (publish ex_callables ex_priority_bus (ex_event ''test.priority''))) \<and>
   (1::nat) < length (snd (publish ex_callables ex_priority_bus (ex_event ''test.priority''))) \<and>
   hpriority (snd (publish ex_callables ex_priority_bus (ex_event ''test.priority'')) ! 0) = HIGH \<and>
   hpriority (snd (publish ex_callables ex_priority_bus (ex_event ''test.priority'')) ! 1) = LOW \<and>
   (0::nat) < 1"
  using publish_priority_order [of ex_callables ex_priority_bus "ex_event ''test.priority''" 0 1]
  by (simp add: ex_priority_bus_def subscribe_def new_event_bus_def ex_callables_def ex_event_def
        handlers_for_def sort_by_priority_def passes_filter_def)

text \<open>
  C5. A one-shot handler is put on the removal list only after its callable has returned:
  the test of \<open>once\<close> stands behind the call, inside the \<open>try\<close>. A one-shot handler
  that raises stays subscribed and is called again by the next publish of its type.
\<close>

theorem once_handler_that_raises_is_kept:
  "handlers_for ex_once_bus ''test.once'' = [ex_once_handler] \<and>
   \<not> handler_returns ex_callables (handler ex_once_handler) (ex_event ''test.once'') \<and>
   snd (publish_all ex_callables ex_once_bus [ex_event ''test.once'', ex_event ''test.once''])
     = [ex_once_handler, ex_once_handler] \<and>
   handlers_for
     (fst (publish_all ex_callables ex_once_bus [ex_event ''test.once'', ex_event ''test.once'']))
     ''test.once'' = [ex_once_handler]"
  by (simp add: ex_once_bus_def ex_once_handler_def subscribe_def new_event_bus_def
        ex_callables_def ex_event_def handlers_for_def sort_by_priority_def publish_def
        execute_handlers_def handlers_to_execute_def Let_def)

section \<open>Properties of the service container\<close>

lemma keeps_resolve_params:
  assumes "keeps res" "resolve_params res c cls ps kwargs = Some (r, c')"
  shows "building c' = building c \<and> services c' = services c"
  using assms(2)
proof (induction ps arbitrary: c kwargs)
  case Nil
  then show ?case by simp
next
  case (Cons p ps)
  show ?case
  proof (cases "ptype p")
    case None
    with Cons show ?thesis by (auto split: if_splits)
  next
    case (Some pt)
    show ?thesis
    proof (cases "res c pt")
      case None
      with Some Cons.prems show ?thesis by simp
    next
      case (Some a)
      then obtain r1 c1 where a: "res c pt = Some (r1, c1)" by (cases a) auto
      with assms(1) have k: "building c1 = building c \<and> services c1 = services c"
        by (auto simp: keeps_def)
      show ?thesis
      proof (cases r1)
        case (Inl e)
        with a \<open>ptype p = Some pt\<close> Cons.prems Cons.IH [of c1 kwargs] k show ?thesis
          by (auto split: if_splits)
      next
        case (Inr i)
        with a \<open>ptype p = Some pt\<close> Cons.prems Cons.IH [of c1 "kwargs @ [(pname p, i)]"] k show ?thesis
          by auto
      qed
    qed
  qed
qed

lemma keeps_create_instance:
  assumes "keeps res" "create_instance res c d = Some (r, c')"
  shows "building c' = building c \<and> services c' = services c"
  using assms keeps_resolve_params [OF assms(1)]
  by (auto simp: create_instance_def create_instance_with_injection_def
      split: implementation.splits option.splits sum.splits if_splits prod.splits)

lemma keeps_resolve_internal:
  assumes "keeps res" "resolve_internal res c t = Some (r, c')"
  shows "building c' = building c \<and> services c' = services c"
  using assms(2) keeps_create_instance [OF assms(1)]
  by (fastforce simp: resolve_internal_def
      split: option.splits sum.splits if_splits prod.splits)

lemma keeps_resolve: "keeps (resolve n)"
proof (induction n)
  case 0
  show ?case by (auto simp: keeps_def split: if_splits)
next
  case (Suc n)
  show ?case
    unfolding keeps_def
  proof (intro allI impI)
    fix c t r c'
    assume a: "resolve (Suc n) c t = Some (r, c')"
    show "building c' = building c \<and> services c' = services c"
    proof (cases "t \<in> building c")
      case True
      with a show ?thesis by simp
    next
      case False
      with a obtain c1 where
        i: "resolve_internal (resolve n) (c\<lparr>building := insert t (building c)\<rparr>) t = Some (r, c1)"
        and c': "c' = c1\<lparr>building := building c1 - {t}\<rparr>"
        by (auto split: option.splits)
      from keeps_resolve_internal [OF Suc i] False c' show ?thesis by auto
    qed
  qed
qed

lemma total_resolve_params:
  assumes "keeps res" "total_at res c"
  shows "resolve_params res c cls ps kwargs \<noteq> None"
  using assms(2)
proof (induction ps arbitrary: c kwargs)
  case Nil
  then show ?case by simp
next
  case (Cons p ps)
  show ?case
  proof (cases "ptype p")
    case None
    with Cons show ?thesis by simp
  next
    case (Some pt)
    from Cons.prems have "res c pt \<noteq> None"
      unfolding total_at_def by blast
    then obtain r1 c1 where a: "res c pt = Some (r1, c1)"
      by (cases "res c pt") auto
    with assms(1) have "building c1 = building c" "services c1 = services c"
      by (auto simp: keeps_def)
    with Cons.prems have "total_at res c1"
      unfolding total_at_def by simp
    with Cons.IH have "\<And>kw. resolve_params res c1 cls ps kw \<noteq> None" by blast
    with a Some show ?thesis
      by (cases r1) auto
  qed
qed

lemma total_create_instance:
  assumes "keeps res" "total_at res c"
  shows "create_instance res c d \<noteq> None"
proof (cases "implementation d")
  case (Factory r)
  then show ?thesis by (simp add: create_instance_def split: option.splits)
next
  case (Class cls)
  from total_resolve_params [OF assms, of cls "params cls" "[]"]
  obtain r c' where "resolve_params res c cls (params cls) [] = Some (r, c')"
    by (cases "resolve_params res c cls (params cls) []") auto
  with Class show ?thesis
    by (cases r) (simp_all add: create_instance_def create_instance_with_injection_def)
next
  case NotCallable
  then show ?thesis by (simp add: create_instance_def)
qed

lemma total_resolve_internal:
  assumes "keeps res" "map_of (services c) t \<noteq> None \<longrightarrow> total_at res c"
  shows "resolve_internal res c t \<noteq> None"
proof (cases "map_of (services c) t")
  case None
  then show ?thesis by (simp add: resolve_internal_def)
next
  case (Some d)
  with assms(2) have "total_at res c" by simp
  from total_create_instance [OF assms(1) this, of d]
  obtain r c' where "create_instance res c d = Some (r, c')"
    by (cases "create_instance res c d") auto
  with Some show ?thesis
    by (cases r) (simp_all add: resolve_internal_def split: option.splits)
qed

lemma unbuilt_insert:
  assumes "map_of (services c) t \<noteq> None" "t \<notin> building c"
  shows "unbuilt (c\<lparr>building := insert t (building c)\<rparr>) < unbuilt c"
proof -
  from assms(1) have "t \<in> fst ` set (services c)"
    by (simp add: map_of_eq_None_iff)
  with assms(2) have "fst ` set (services c) - insert t (building c) \<subset> fst ` set (services c) - building c"
    by auto
  then show ?thesis
    unfolding unbuilt_def by (simp add: psubset_card_mono)
qed

lemma resolve_total: "unbuilt c < n \<Longrightarrow> resolve n c t \<noteq> None"
proof (induction n arbitrary: c t)
  case 0
  then show ?case by simp
next
  case (Suc n)
  show ?case
  proof (cases "t \<in> building c")
    case True
    then show ?thesis by simp
  next
    case False
    let ?c1 = "c\<lparr>building := insert t (building c)\<rparr>"
    have "map_of (services ?c1) t \<noteq> None \<longrightarrow> total_at (resolve n) ?c1"
    proof
      assume "map_of (services ?c1) t \<noteq> None"
      with unbuilt_insert [of c t] False Suc.prems have "unbuilt ?c1 < n" by simp
      then show "total_at (resolve n) ?c1"
        unfolding total_at_def using Suc.IH by (auto simp: unbuilt_def)
    qed
    from total_resolve_internal [OF keeps_resolve this] False show ?thesis
      by (auto split: option.splits)
  qed
qed

lemma unbuilt_le_length: "unbuilt c \<le> length (services c)"
proof -
  have "unbuilt c \<le> card (fst ` set (services c))"
    unfolding unbuilt_def by (rule card_mono) auto
  also have "\<dots> \<le> card (set (services c))"
    by (rule card_image_le) simp
  also have "\<dots> \<le> length (services c)"
    by (rule card_length)
  finally show ?thesis .
qed

lemma create_instance_not_bare_circular:
  "create_instance res c d \<noteq> Some (Inl (CircularDependency u), c')"
  by (auto simp: create_instance_def create_instance_with_injection_def
      split: implementation.splits option.splits sum.splits prod.splits if_splits)

lemma resolve_internal_not_bare_circular:
  "resolve_internal res c t \<noteq> Some (Inl (CircularDependency u), c')"
proof (cases "map_of (services c) t")
  case None
  then show ?thesis by (simp add: resolve_internal_def)
next
  case (Some d)
  show ?thesis
  proof (cases "create_instance res c d")
    case None
    with Some show ?thesis by (simp add: resolve_internal_def split: option.splits)
  next
    case (Some a)
    obtain r c1 where a: "a = (r, c1)" by (cases a)
    with Some create_instance_not_bare_circular [of res c d u c1]
    have "r \<noteq> Inl (CircularDependency u)" by auto
    with Some a \<open>map_of (services c) t = Some d\<close> show ?thesis
      by (cases r) (auto simp: resolve_internal_def split: option.splits)
  qed
qed

lemma resolve_not_bare_circular:
  assumes "t \<notin> building c"
  shows "resolve n c t \<noteq> Some (Inl (CircularDependency u), c')"
proof (cases n)
  case 0
  with assms show ?thesis by simp
next
  case (Suc k)
  show ?thesis
  proof
    assume "resolve n c t = Some (Inl (CircularDependency u), c')"
    with Suc assms obtain c1 where
      "resolve_internal (resolve k) (c\<lparr>building := insert t (building c)\<rparr>) t
         = Some (Inl (CircularDependency u), c1)"
      by (auto split: option.splits)
    with resolve_internal_not_bare_circular show False by blast
  qed
qed

lemma ex_container_simps:
  "services ex_container =
     [(''ServiceContainer'', \<lparr>service_type = ''ServiceContainer'', implementation = NotCallable, lifetime = SINGLETON\<rparr>),
      (''Node'', \<lparr>service_type = ''Node'', implementation = Class ex_self_ref, lifetime = TRANSIENT\<rparr>),
      (''Db'', \<lparr>service_type = ''Db'', implementation = Factory None, lifetime = SINGLETON\<rparr>)]"
  "singletons ex_container = []"
  "building ex_container = {}"
  by (simp_all add: ex_container_def new_container_def register_singleton_def
        register_transient_def register_def)

lemma ex_resolve_node:
  "resolve 4 ex_container ''Node'' =
     Some (Inl (FailedToCreate ''Node'' (Some (CircularDependency ''Node''))), ex_container)"
  by (simp add: eval_nat_numeral ex_container_simps ex_self_ref_def resolve_internal_def
        create_instance_def create_instance_with_injection_def)

lemma ex_resolve_db:
  "resolve 4 ex_container ''Db'' = Some (Inl (FactoryFailed ''Db''), ex_container)"
  by (simp add: eval_nat_numeral ex_container_simps resolve_internal_def create_instance_def)

lemma resolve_in_building:
  "t \<in> building c \<Longrightarrow> resolve n c t = Some (Inl (CircularDependency t), c)"
  by (cases n) simp_all

lemma resolve_self_referential:
  assumes "t \<notin> building c" "map_of (services c) t = Some d" "implementation d = Class cls"
    and "lifetime d \<noteq> SINGLETON \<or> map_of (singletons c) t = None"
    and "params cls = p # ps" "ptype p = Some t" "\<not> has_default p"
  shows "resolve (Suc n) c t =
     Some (Inl (FailedToCreate (cname cls) (Some (CircularDependency t))), c)"
proof -
  let ?c1 = "c\<lparr>building := insert t (building c)\<rparr>"
  have "resolve n ?c1 t = Some (Inl (CircularDependency t), ?c1)"
    by (rule resolve_in_building) simp
  with assms(5-7) have "resolve_params (resolve n) ?c1 cls (params cls) [] =
      Some (Inl (CircularDependency t), ?c1)"
    by simp
  then have "create_instance (resolve n) ?c1 d =
      Some (Inl (FailedToCreate (cname cls) (Some (CircularDependency t))), ?c1)"
    using assms(3) by (simp add: create_instance_def create_instance_with_injection_def)
  with assms(2,4) have "resolve_internal (resolve n) ?c1 t =
      Some (Inl (FailedToCreate (cname cls) (Some (CircularDependency t))), ?c1)"
    by (auto simp: resolve_internal_def)
  moreover from assms(1) have "?c1\<lparr>building := building ?c1 - {t}\<rparr> = c"
    by simp
  ultimately show ?thesis using assms(1) by simp
qed

text \<open>
  C4. A call of \<open>resolve\<close> for a type that is in the building set raises the
  circular-dependency error naming that type, at once: it holds at every nesting bound,
  also at bound 0 where no further call is possible, and it leaves the container as it
  is. This is what happens to the nested call when a class is resolved whose constructor
  asks, in its first parameter and without a default, for the type the class is
  registered under: the resolution fails with \<open>Failed to create instance\<close>, caused by the
  circular-dependency error naming the type. Nor does any resolution recurse without
  bound: with a nesting bound above the number of registered services, \<open>resolve\<close>
  returns or raises for every type.
\<close>

theorem resolve_circular_dependency:
  "(t \<in> building c \<longrightarrow> resolve n c t = Some (Inl (CircularDependency t), c)) \<and>
   (t' \<notin> building c' \<and> map_of (services c') t' = Some d \<and> implementation d = Class cls \<and>
    (lifetime d \<noteq> SINGLETON \<or> map_of (singletons c') t' = None) \<and>
    params cls = p # ps \<and> ptype p = Some t' \<and> \<not> has_default p \<longrightarrow>
      resolve (Suc n') c' t' =
        Some (Inl (FailedToCreate (cname cls) (Some (CircularDependency t'))), c')) \<and>
   (length (services c'') < m \<longrightarrow> resolve m c'' u \<noteq> None)"
proof (intro conjI impI)
  assume "t \<in> building c"
  then show "resolve n c t = Some (Inl (CircularDependency t), c)"
    by (rule resolve_in_building)
next
  assume "t' \<notin> building c' \<and> map_of (services c') t' = Some d \<and> implementation d = Class cls \<and>
    (lifetime d \<noteq> SINGLETON \<or> map_of (singletons c') t' = None) \<and>
    params cls = p # ps \<and> ptype p = Some t' \<and> \<not> has_default p"
  then show "resolve (Suc n') c' t' =
        Some (Inl (FailedToCreate (cname cls) (Some (CircularDependency t'))), c')"
    by (intro resolve_self_referential [of t' c' d cls p ps]) simp_all
next
  assume "length (services c'') < m"
  with unbuilt_le_length [of c''] have "unbuilt c'' < m" by simp
  then show "resolve m c'' u \<noteq> None" by (rule resolve_total)
qed

theorem resolve_circular_dependency_witness:
  "''Node'' \<in> building (ex_container\<lparr>building := {''Node''}\<rparr>) \<and>
   resolve 3 (ex_container\<lparr>building := {''Node''}\<rparr>) ''Node'' =
     Some (Inl (CircularDependency ''Node''), ex_container\<lparr>building := {''Node''}\<rparr>) \<and>
   ''Node'' \<notin> building ex_container \<and>
   map_of (services ex_container) ''Node'' =
     Some \<lparr>service_type = ''Node'', implementation = Class ex_self_ref, lifetime = TRANSIENT\<rparr> \<and>
   params ex_self_ref = [\<lparr>pname = ''parent'', ptype = Some ''Node'', has_default = False\<rparr>] \<and>
   resolve 4 ex_container ''Node'' =
     Some (Inl (FailedToCreate ''Node'' (Some (CircularDependency ''Node''))), ex_container) \<and>
   length (services ex_container) < 4 \<and>
   resolve 4 ex_container ''Db'' \<noteq> None"
  using resolve_circular_dependency [of "''Node''" "ex_container\<lparr>building := {''Node''}\<rparr>" 3
      "''Node''" ex_container
      "\<lparr>service_type = ''Node'', implementation = Class ex_self_ref, lifetime = TRANSIENT\<rparr>"
      ex_self_ref "\<lparr>pname = ''parent'', ptype = Some ''Node'', has_default = False\<rparr>" "[]"
      3 ex_container 4 "''Db''"]
  by (simp add: ex_container_simps ex_self_ref_def)

text \<open>
  C8, as it is stated, fails for the call that the circularity test rejects: that call
  raises before the \<open>try\<close> statement and leaves the type in the building set, where the
  enclosing call put it. This is the nested call made while \<open>Node\<close>, whose constructor
  asks for a \<open>Node\<close>, is being resolved.
\<close>

theorem resolve_removes_type_counterexample:
  "resolve 4 ex_container ''Node'' =
     Some (Inl (FailedToCreate ''Node'' (Some (CircularDependency ''Node''))), ex_container) \<and>
   resolve 3 (ex_container\<lparr>building := {''Node''}\<rparr>) ''Node'' =
     Some (Inl (CircularDependency ''Node''), ex_container\<lparr>building := {''Node''}\<rparr>) \<and>
   ''Node'' \<in> building (ex_container\<lparr>building := {''Node''}\<rparr>)"
  using ex_resolve_node by (simp add: eval_nat_numeral)

text \<open>
  C8, amended. Every call of \<open>resolve\<close>, whether it returns an instance or raises,
  leaves the building set as it found it. A call for a type that was not in the set at
  entry (every top-level call is one) leaves the type out of the set, and a later
  \<open>resolve\<close> of the same type is not rejected as circular, whatever the first call did.
\<close>

theorem resolve_restores_building:
  assumes "length (services c) < n"
  shows "\<exists>r c'. resolve n c t = Some (r, c') \<and>
           building c' = building c \<and>
           (t \<notin> building c \<longrightarrow>
              t \<notin> building c' \<and>
              (\<forall>m u c''. resolve m c' t \<noteq> Some (Inl (CircularDependency u), c'')))"
proof -
  from assms unbuilt_le_length [of c] have "unbuilt c < n" by simp
  then have "resolve n c t \<noteq> None" by (rule resolve_total)
  then obtain r c' where rc: "resolve n c t = Some (r, c')"
    by (cases "resolve n c t") auto
  with keeps_resolve [of n] have b: "building c' = building c"
    by (auto simp: keeps_def)
  have "resolve m c' t \<noteq> Some (Inl (CircularDependency u), c'')" if "t \<notin> building c" for m u c''
    using that b resolve_not_bare_circular [of t c' m u c''] by simp
  with rc b show ?thesis by auto
qed

theorem resolve_restores_building_witness:
  "length (services ex_container) < 4 \<and>
   resolve 4 ex_container ''Db'' = Some (Inl (FactoryFailed ''Db''), ex_container) \<and>
   building ex_container = {} \<and> ''Db'' \<notin> building ex_container \<and>
   resolve 4 ex_container ''Db'' \<noteq> Some (Inl (CircularDependency ''Db''), ex_container)"
proof -
  have len: "length (services ex_container) < 4"
    by (simp add: ex_container_simps)
  from resolve_restores_building [OF len, of "''Db''"]
  obtain r c' where rc: "resolve 4 ex_container ''Db'' = Some (r, c')"
    and nb: "''Db'' \<notin> building ex_container \<longrightarrow>
        (\<forall>m u c''. resolve m c' ''Db'' \<noteq> Some (Inl (CircularDependency u), c''))"
    by blast
  from rc ex_resolve_db have "c' = ex_container" by simp
  with nb have "resolve 4 ex_container ''Db'' \<noteq> Some (Inl (CircularDependency ''Db''), ex_container)"
    by (simp add: ex_container_simps)
  with len ex_resolve_db show ?thesis
    by (simp add: ex_container_simps)
qed

section \<open>Properties of the plugin manager\<close>

lemma load_failed_is_error: "fst (load_failed m plugin_name step) = Inl (PluginLoadError plugin_name step)"
  by (simp add: load_failed_def)

lemma store_and_start_success:
  assumes "store_and_start m plugin_name plugin cfg = (Inr loaded, m')"
  shows "loaded = plugin \<and> \<not> start_raises (instance_of plugin) \<and>
     m' = publish_plugin_event
            (register_plugin_services
               (register_plugin_by_type
                  (m\<lparr>plugins := AList.update plugin_name plugin (plugins m),
                      plugin_configs := AList.update plugin_name cfg (plugin_configs m),
                      load_order := load_order m @ [plugin_name]\<rparr>) plugin) plugin)
            ''plugin.loaded'' plugin_name"
  using assms by (auto simp: store_and_start_def Let_def load_failed_def split: if_splits)

lemma load_plugin_success:
  assumes "load_plugin env m plugin_name = (Inr loaded, m')"
  shows "\<exists>cls cfg.
     map_of (plugins m) plugin_name = None \<and>
     discovery_load_plugin env plugin_name = Some cls \<and> \<not> constructor_raises cls \<and>
     get_plugin_config env plugin_name = Some cfg \<and> \<not> initialize_raises cls cfg \<and>
     \<not> start_raises cls \<and>
     loaded = \<lparr>instance_of = cls, instance_id = length (constructor_calls m)\<rparr> \<and>
     m' = publish_plugin_event
            (register_plugin_services
               (register_plugin_by_type
                  (m\<lparr>published := published m @ [\<lparr>event_type = ''plugin.loading'', event_plugin_name = plugin_name\<rparr>],
                      plugin_classes := AList.update plugin_name cls (plugin_classes m),
                      constructor_calls := constructor_calls m @ [plugin_name],
                      plugins := AList.update plugin_name loaded (plugins m),
                      plugin_configs := AList.update plugin_name cfg (plugin_configs m),
                      load_order := load_order m @ [plugin_name]\<rparr>) loaded) loaded)
            ''plugin.loaded'' plugin_name"
proof -
  from assms have nl: "map_of (plugins m) plugin_name = None"
    by (auto simp: load_plugin_def split: if_splits)
  from assms nl obtain cls where cls: "discovery_load_plugin env plugin_name = Some cls"
    by (cases "discovery_load_plugin env plugin_name")
       (auto simp: load_plugin_def Let_def load_failed_def)
  from assms nl cls have nc: "\<not> constructor_raises cls"
    by (auto simp: load_plugin_def Let_def load_failed_def split: if_splits)
  from assms nl cls nc obtain cfg where cfg: "get_plugin_config env plugin_name = Some cfg"
    by (cases "get_plugin_config env plugin_name")
       (auto simp: load_plugin_def Let_def load_failed_def)
  from assms nl cls nc cfg have ni: "\<not> initialize_raises cls cfg"
    by (auto simp: load_plugin_def Let_def load_failed_def split: if_splits)
  let ?m2 = "(publish_plugin_event m ''plugin.loading'' plugin_name)
       \<lparr>plugin_classes := AList.update plugin_name cls
            (plugin_classes (publish_plugin_event m ''plugin.loading'' plugin_name)),
        constructor_calls :=
          constructor_calls (publish_plugin_event m ''plugin.loading'' plugin_name) @ [plugin_name]\<rparr>"
  let ?p = "\<lparr>instance_of = cls,
      instance_id = length (constructor_calls (publish_plugin_event m ''plugin.loading'' plugin_name))\<rparr>"
  from assms nl cls nc cfg ni
  have ss: "store_and_start ?m2 plugin_name ?p cfg = (Inr loaded, m')"
    by (simp add: load_plugin_def Let_def)
  from store_and_start_success [OF ss] nl cls nc cfg ni show ?thesis
    by (simp add: publish_plugin_event_def)
qed

lemma registries_register_plugin_services [simp]:
  "agents (register_plugin_services m p) = agents m"
  "embeddings (register_plugin_services m p) = embeddings m"
  "memory_providers (register_plugin_services m p) = memory_providers m"
  "plugins (register_plugin_services m p) = plugins m"
  by (simp_all add: register_plugin_services_def container_register_instance_def Let_def)

lemma registries_publish_plugin_event [simp]:
  "agents (publish_plugin_event m t n) = agents m"
  "embeddings (publish_plugin_event m t n) = embeddings m"
  "memory_providers (publish_plugin_event m t n) = memory_providers m"
  "plugins (publish_plugin_event m t n) = plugins m"
  "registered_services (publish_plugin_event m t n) = registered_services m"
  by (simp_all add: publish_plugin_event_def)

lemma plugins_register_plugin_by_type [simp]:
  "plugins (register_plugin_by_type m p) = plugins m"
  "registered_services (register_plugin_by_type m p) = registered_services m"
  by (simp_all add: register_plugin_by_type_def)

lemma ran_update_subset: "ran (map_of (AList.update k v al)) \<subseteq> insert v (ran (map_of al))"
  by (auto simp: update_conv' ran_def split: if_splits)

lemma ran_update_mem: "v \<in> ran (map_of (AList.update k v al))"
  by (auto simp: update_conv' ran_def)

lemma load_plugin_success_id:
  assumes "load_plugin env m plugin_name = (Inr plugin, m')"
  shows "instance_id plugin = length (constructor_calls m) \<and>
         constructor_calls m' = constructor_calls m @ [plugin_name]"
proof -
  from load_plugin_success [OF assms] obtain cls cfg where
    p: "plugin = \<lparr>instance_of = cls, instance_id = length (constructor_calls m)\<rparr>"
    and m': "m' = publish_plugin_event
            (register_plugin_services
               (register_plugin_by_type
                  (m\<lparr>published := published m @ [\<lparr>event_type = ''plugin.loading'', event_plugin_name = plugin_name\<rparr>],
                      plugin_classes := AList.update plugin_name cls (plugin_classes m),
                      constructor_calls := constructor_calls m @ [plugin_name],
                      plugins := AList.update plugin_name plugin (plugins m),
                      plugin_configs := AList.update plugin_name cfg (plugin_configs m),
                      load_order := load_order m @ [plugin_name]\<rparr>) plugin) plugin)
            ''plugin.loaded'' plugin_name"
    by blast
  from p have "instance_id plugin = length (constructor_calls m)" by simp
  moreover have "constructor_calls m' = constructor_calls m @ [plugin_name]"
    by (simp add: m' publish_plugin_event_def register_plugin_services_def
          container_register_instance_def register_plugin_by_type_def Let_def)
  ultimately show ?thesis by simp
qed

lemma fresh_object_in_registry:
  assumes "\<forall>q \<in> ran (map_of al). instance_id q < instance_id plugin"
  shows "plugin \<in> ran (map_of (if b then AList.update k plugin al else al)) \<longleftrightarrow> b"
  using assms ran_update_mem [of plugin k al] by auto

lemma registry_objects_bound:
  assumes "\<forall>q \<in> ran (map_of al). instance_id q < n" "instance_id plugin = n"
  shows "\<forall>q \<in> ran (map_of (if b then AList.update k plugin al else al)). instance_id q < Suc n"
  using assms ran_update_subset [of k plugin al] by (auto simp: less_Suc_eq)

text \<open>
  C10. A successful \<open>load_plugin\<close> changes at most one type registry, the first in the
  order agents, embeddings, memory providers whose interface the plugin's class
  implements: there the plugin is entered under its metadata name, and the other
  registries are left as they were; a plugin that implements none of the three
  interfaces changes no registry. The loaded plugin is in \<open>get_loaded_plugins()\<close> in
  every case. So, where no registry held an entry under the plugin's metadata name
  before the load, afterwards exactly the registry chosen by the precedence holds one,
  and none does for a plugin without any of the interfaces. The plugin object itself,
  being new, is a value of the chosen registry and of no other, when the objects in the
  registries are ones the manager has made. The service container receives the plugin
  under its class and under the one interface chosen the same way.
\<close>

theorem load_plugin_registers_by_precedence:
  assumes "load_plugin env m plugin_name = (Inr plugin, m')"
  shows "map_of (plugins m') plugin_name = Some plugin \<and>
     agents m' =
       (if is_agent (instance_of plugin)
        then AList.update (metadata_name (instance_of plugin)) plugin (agents m) else agents m) \<and>
     embeddings m' =
       (if \<not> is_agent (instance_of plugin) \<and> is_embedding (instance_of plugin)
        then AList.update (metadata_name (instance_of plugin)) plugin (embeddings m)
        else embeddings m) \<and>
     memory_providers m' =
       (if \<not> is_agent (instance_of plugin) \<and> \<not> is_embedding (instance_of plugin) \<and>
           is_memory (instance_of plugin)
        then AList.update (metadata_name (instance_of plugin)) plugin (memory_providers m)
        else memory_providers m) \<and>
     (registries_holding m (metadata_name (instance_of plugin)) = [] \<longrightarrow>
        registries_holding m' (metadata_name (instance_of plugin)) =
          (if is_agent (instance_of plugin) then [''agents'']
           else if is_embedding (instance_of plugin) then [''embeddings'']
           else if is_memory (instance_of plugin) then [''memory_providers'']
           else [])) \<and>
     (registered_objects_made m \<longrightarrow>
        (plugin \<in> ran (map_of (agents m')) \<longleftrightarrow> is_agent (instance_of plugin)) \<and>
        (plugin \<in> ran (map_of (embeddings m')) \<longleftrightarrow>
           \<not> is_agent (instance_of plugin) \<and> is_embedding (instance_of plugin)) \<and>
        (plugin \<in> ran (map_of (memory_providers m')) \<longleftrightarrow>
           \<not> is_agent (instance_of plugin) \<and> \<not> is_embedding (instance_of plugin) \<and>
           is_memory (instance_of plugin)) \<and>
        registered_objects_made m') \<and>
     registered_services m' =
       (let services' = AList.update (class_name (instance_of plugin)) plugin (registered_services m)
        in if is_agent (instance_of plugin) then AList.update ''IAgentPlugin'' plugin services'
           else if is_embedding (instance_of plugin) then AList.update ''IEmbeddingPlugin'' plugin services'
           else if is_memory (instance_of plugin) then AList.update ''IMemoryPlugin'' plugin services'
           else services')"
proof -
  from load_plugin_success [OF assms] obtain cls cfg where
    p: "plugin = \<lparr>instance_of = cls, instance_id = length (constructor_calls m)\<rparr>"
    and m': "m' = publish_plugin_event
            (register_plugin_services
               (register_plugin_by_type
                  (m\<lparr>published := published m @ [\<lparr>event_type = ''plugin.loading'', event_plugin_name = plugin_name\<rparr>],
                      plugin_classes := AList.update plugin_name cls (plugin_classes m),
                      constructor_calls := constructor_calls m @ [plugin_name],
                      plugins := AList.update plugin_name plugin (plugins m),
                      plugin_configs := AList.update plugin_name cfg (plugin_configs m),
                      load_order := load_order m @ [plugin_name]\<rparr>) plugin) plugin)
            ''plugin.loaded'' plugin_name"
    by blast
  have pl: "map_of (plugins m') plugin_name = Some plugin"
    by (simp add: m' update_conv')
  have ag: "agents m' =
       (if is_agent (instance_of plugin)
        then AList.update (metadata_name (instance_of plugin)) plugin (agents m) else agents m)"
    by (simp add: m' register_plugin_by_type_def)
  have em: "embeddings m' =
       (if \<not> is_agent (instance_of plugin) \<and> is_embedding (instance_of plugin)
        then AList.update (metadata_name (instance_of plugin)) plugin (embeddings m)
        else embeddings m)"
    by (simp add: m' register_plugin_by_type_def)
  have me: "memory_providers m' =
       (if \<not> is_agent (instance_of plugin) \<and> \<not> is_embedding (instance_of plugin) \<and>
           is_memory (instance_of plugin)
        then AList.update (metadata_name (instance_of plugin)) plugin (memory_providers m)
        else memory_providers m)"
    by (simp add: m' register_plugin_by_type_def)
  have rh: "registries_holding m' (metadata_name (instance_of plugin)) =
          (if is_agent (instance_of plugin) then [''agents'']
           else if is_embedding (instance_of plugin) then [''embeddings'']
           else if is_memory (instance_of plugin) then [''memory_providers'']
           else [])"
    if "registries_holding m (metadata_name (instance_of plugin)) = []"
    using that unfolding registries_holding_def ag em me
    by (simp add: update_conv' split: if_splits)
  have rs: "registered_services m' =
       (let services' = AList.update (class_name (instance_of plugin)) plugin (registered_services m)
        in if is_agent (instance_of plugin) then AList.update ''IAgentPlugin'' plugin services'
           else if is_embedding (instance_of plugin) then AList.update ''IEmbeddingPlugin'' plugin services'
           else if is_memory (instance_of plugin) then AList.update ''IMemoryPlugin'' plugin services'
           else services')"
    by (simp add: m' register_plugin_services_def container_register_instance_def Let_def)
  from load_plugin_success_id [OF assms]
  have idp: "instance_id plugin = length (constructor_calls m)"
    and cc: "constructor_calls m' = constructor_calls m @ [plugin_name]"
    by simp_all
  have ob: "(plugin \<in> ran (map_of (agents m')) \<longleftrightarrow> is_agent (instance_of plugin)) \<and>
        (plugin \<in> ran (map_of (embeddings m')) \<longleftrightarrow>
           \<not> is_agent (instance_of plugin) \<and> is_embedding (instance_of plugin)) \<and>
        (plugin \<in> ran (map_of (memory_providers m')) \<longleftrightarrow>
           \<not> is_agent (instance_of plugin) \<and> \<not> is_embedding (instance_of plugin) \<and>
           is_memory (instance_of plugin)) \<and>
        registered_objects_made m'"
    if made: "registered_objects_made m"
  proof -
    from made idp have b: "\<forall>q \<in> ran (map_of (agents m)). instance_id q < instance_id plugin"
      "\<forall>q \<in> ran (map_of (embeddings m)). instance_id q < instance_id plugin"
      "\<forall>q \<in> ran (map_of (memory_providers m)). instance_id q < instance_id plugin"
      by (simp_all add: registered_objects_made_def)
    have "plugin \<in> ran (map_of (agents m')) \<longleftrightarrow> is_agent (instance_of plugin)"
      unfolding ag by (rule fresh_object_in_registry [OF b(1)])
    moreover have "plugin \<in> ran (map_of (embeddings m')) \<longleftrightarrow>
           \<not> is_agent (instance_of plugin) \<and> is_embedding (instance_of plugin)"
      unfolding em by (rule fresh_object_in_registry [OF b(2)])
    moreover have "plugin \<in> ran (map_of (memory_providers m')) \<longleftrightarrow>
           \<not> is_agent (instance_of plugin) \<and> \<not> is_embedding (instance_of plugin) \<and>
           is_memory (instance_of plugin)"
      unfolding me by (rule fresh_object_in_registry [OF b(3)])
    moreover have "registered_objects_made m'"
    proof -
      from made have c: "\<forall>q \<in> ran (map_of (agents m)). instance_id q < length (constructor_calls m)"
        "\<forall>q \<in> ran (map_of (embeddings m)). instance_id q < length (constructor_calls m)"
        "\<forall>q \<in> ran (map_of (memory_providers m)). instance_id q < length (constructor_calls m)"
        by (simp_all add: registered_objects_made_def)
      have "\<forall>q \<in> ran (map_of (agents m')). instance_id q < Suc (length (constructor_calls m))"
        unfolding ag by (rule registry_objects_bound [OF c(1) idp])
      moreover have "\<forall>q \<in> ran (map_of (embeddings m')). instance_id q < Suc (length (constructor_calls m))"
        unfolding em by (rule registry_objects_bound [OF c(2) idp])
      moreover have "\<forall>q \<in> ran (map_of (memory_providers m')). instance_id q < Suc (length (constructor_calls m))"
        unfolding me by (rule registry_objects_bound [OF c(3) idp])
      ultimately show ?thesis
        by (auto simp: registered_objects_made_def cc)
    qed
    ultimately show ?thesis by blast
  qed
  from pl ag em me rh ob rs show ?thesis by blast
qed

theorem load_plugin_registers_by_precedence_witness:
  "fst (load_plugin ex_env new_plugin_manager ''hybrid'') =
     Inr \<lparr>instance_of = ex_class ''hybrid'' True False True False, instance_id = 0\<rparr> \<and>
   is_agent (ex_class ''hybrid'' True False True False) \<and>
   is_memory (ex_class ''hybrid'' True False True False) \<and>
   registries_holding new_plugin_manager ''hybrid'' = [] \<and>
   registries_holding (snd (load_plugin ex_env new_plugin_manager ''hybrid'')) ''hybrid'' = [''agents''] \<and>
   agents (snd (load_plugin ex_env new_plugin_manager ''hybrid'')) =
     [(''hybrid'', \<lparr>instance_of = ex_class ''hybrid'' True False True False, instance_id = 0\<rparr>)] \<and>
   memory_providers (snd (load_plugin ex_env new_plugin_manager ''hybrid'')) = [] \<and>
   map_of (plugins (snd (load_plugin ex_env new_plugin_manager ''hybrid''))) ''hybrid'' =
     Some \<lparr>instance_of = ex_class ''hybrid'' True False True False, instance_id = 0\<rparr> \<and>
   \<lparr>instance_of = ex_class ''hybrid'' True False True False, instance_id = 0\<rparr>
     \<in> ran (map_of (agents (snd (load_plugin ex_env new_plugin_manager ''hybrid'')))) \<and>
   \<lparr>instance_of = ex_class ''hybrid'' True False True False, instance_id = 0\<rparr>
     \<notin> ran (map_of (memory_providers (snd (load_plugin ex_env new_plugin_manager ''hybrid'')))) \<and>
   fst (load_plugin ex_env new_plugin_manager ''tools'') =
     Inr \<lparr>instance_of = ex_class ''tools'' False False False False, instance_id = 0\<rparr> \<and>
   registries_holding (snd (load_plugin ex_env new_plugin_manager ''tools'')) ''tools'' = [] \<and>
   map_of (plugins (snd (load_plugin ex_env new_plugin_manager ''tools''))) ''tools'' =
     Some \<lparr>instance_of = ex_class ''tools'' False False False False, instance_id = 0\<rparr>"
proof -
  let ?h = "\<lparr>instance_of = ex_class ''hybrid'' True False True False, instance_id = 0\<rparr>"
  let ?t = "\<lparr>instance_of = ex_class ''tools'' False False False False, instance_id = 0\<rparr>"
  have h: "fst (load_plugin ex_env new_plugin_manager ''hybrid'') = Inr ?h"
    by (simp add: load_plugin_def store_and_start_def discovery_load_plugin_def ex_env_def
          ex_manifest_def ex_class_def new_plugin_manager_def publish_plugin_event_def Let_def)
  have t: "fst (load_plugin ex_env new_plugin_manager ''tools'') = Inr ?t"
    by (simp add: load_plugin_def store_and_start_def discovery_load_plugin_def ex_env_def
          ex_manifest_def ex_class_def new_plugin_manager_def publish_plugin_event_def Let_def)
  have h': "load_plugin ex_env new_plugin_manager ''hybrid'' =
      (Inr ?h, snd (load_plugin ex_env new_plugin_manager ''hybrid''))"
    using h by (metis prod.collapse)
  have t': "load_plugin ex_env new_plugin_manager ''tools'' =
      (Inr ?t, snd (load_plugin ex_env new_plugin_manager ''tools''))"
    using t by (metis prod.collapse)
  have e: "registries_holding new_plugin_manager ''hybrid'' = []"
    "registries_holding new_plugin_manager ''tools'' = []"
    "agents new_plugin_manager = []" "memory_providers new_plugin_manager = []"
    by (simp_all add: registries_holding_def new_plugin_manager_def)
  have made: "registered_objects_made new_plugin_manager"
    by (simp add: registered_objects_made_def new_plugin_manager_def)
  have c: "is_agent (ex_class ''hybrid'' True False True False)"
    "is_memory (ex_class ''hybrid'' True False True False)"
    "metadata_name (ex_class ''hybrid'' True False True False) = ''hybrid''"
    "\<not> is_agent (ex_class ''tools'' False False False False)"
    "\<not> is_embedding (ex_class ''tools'' False False False False)"
    "\<not> is_memory (ex_class ''tools'' False False False False)"
    "metadata_name (ex_class ''tools'' False False False False) = ''tools''"
    by (simp_all add: ex_class_def)
  from load_plugin_registers_by_precedence [OF h'] load_plugin_registers_by_precedence [OF t']
  show ?thesis
    using h t by (simp add: e c made)
qed

text \<open>
  C1 at an agent plugin whose \<open>start\<close> raises, loaded into a new manager. The call
  raises \<open>PluginLoadError\<close> naming the plugin and the failed step, an error event is
  published and the plugin is not among the loaded plugins; but the entry that
  \<open>_register_plugin_by_type\<close> made in the agent registry before \<open>start\<close> was called is
  still there, as are the registrations in the service container:
  \<open>_cleanup_failed_plugin\<close> deletes from \<open>_plugins\<close>, \<open>_plugin_configs\<close>,
  \<open>_plugin_classes\<close> and \<open>_load_order\<close> only, where \<open>unload_plugin\<close> calls
  \<open>_unregister_plugin_by_type\<close>, which would have removed the entry.
\<close>

theorem load_plugin_start_failure_stays_registered:
  "fst (load_plugin ex_env new_plugin_manager ''echo'') = Inl (PluginLoadError ''echo'' Start) \<and>
   map_of (plugins (snd (load_plugin ex_env new_plugin_manager ''echo''))) ''echo'' = None \<and>
   published (snd (load_plugin ex_env new_plugin_manager ''echo'')) =
     [\<lparr>event_type = ''plugin.loading'', event_plugin_name = ''echo''\<rparr>,
      \<lparr>event_type = ''plugin.error'', event_plugin_name = ''echo''\<rparr>] \<and>
   agents (snd (load_plugin ex_env new_plugin_manager ''echo'')) =
     [(''echo'', \<lparr>instance_of = ex_class ''echo'' True False False True, instance_id = 0\<rparr>)] \<and>
   registries_holding (snd (load_plugin ex_env new_plugin_manager ''echo'')) ''echo'' = [''agents''] \<and>
   map fst (registered_services (snd (load_plugin ex_env new_plugin_manager ''echo''))) =
     [''echoPlugin'', ''IAgentPlugin''] \<and>
   agents (unregister_plugin_by_type (snd (load_plugin ex_env new_plugin_manager ''echo''))
             \<lparr>instance_of = ex_class ''echo'' True False False True, instance_id = 0\<rparr>) = []"
  by (simp add: load_plugin_def store_and_start_def load_failed_def cleanup_failed_plugin_def
        discovery_load_plugin_def ex_env_def ex_manifest_def ex_class_def new_plugin_manager_def
        publish_plugin_event_def register_plugin_by_type_def register_plugin_services_def
        container_register_instance_def unregister_plugin_by_type_def registries_holding_def Let_def)

section \<open>Properties of dependency resolution\<close>

subsection \<open>\<open>visit\<close> ends\<close>

lemma keeps_temp_visit_deps:
  assumes "keeps_temp vis" "visit_deps vis st ds = Some (Inr st')"
  shows "temp_visited st' = temp_visited st"
  using assms(2)
proof (induction ds arbitrary: st)
  case Nil
  then show ?case by simp
next
  case (Cons d ds)
  from Cons.prems obtain st1 where v: "vis st d = Some (Inr st1)"
    and r: "visit_deps vis st1 ds = Some (Inr st')"
    by (auto split: option.splits sum.splits)
  from assms(1) v have "temp_visited st1 = temp_visited st"
    by (auto simp: keeps_temp_def)
  with Cons.IH [OF r] show ?case by simp
qed

lemma visit_Suc_returns:
  assumes "visit (Suc n) disc st p = Some (Inr st')" "p \<notin> temp_visited st" "p \<notin> visited st"
  obtains m st2 where "map_of disc p = Some m"
    and "visit_deps (visit n disc) (st\<lparr>temp_visited := insert p (temp_visited st)\<rparr>) (dependencies m)
           = Some (Inr st2)"
    and "st' = st2\<lparr>temp_visited := temp_visited st2 - {p},
                       visited := insert p (visited st2),
                       result := result st2 @ [p]\<rparr>"
proof (cases "map_of disc p")
  case None
  with assms show ?thesis by simp
next
  case (Some m)
  show ?thesis
  proof (cases "visit_deps (visit n disc) (st\<lparr>temp_visited := insert p (temp_visited st)\<rparr>) (dependencies m)")
    case None
    with Some assms show ?thesis by simp
  next
    case (Some r)
    show ?thesis
    proof (cases r)
      case (Inl e)
      with Some \<open>map_of disc p = Some m\<close> assms show ?thesis by simp
    next
      case (Inr st2)
      with Some \<open>map_of disc p = Some m\<close> assms that [of m st2] show ?thesis by simp
    qed
  qed
qed

lemma visit_returns_at_once:
  assumes "visit n disc st p = Some (Inr st')" "p \<in> temp_visited st \<or> p \<in> visited st"
  shows "st' = st \<and> p \<in> visited st"
  using assms by (cases n) (auto split: if_splits)

lemma keeps_temp_visit: "keeps_temp (visit n disc)"
proof (induction n)
  case 0
  show ?case by (auto simp: keeps_temp_def split: if_splits)
next
  case (Suc n)
  show ?case
    unfolding keeps_temp_def
  proof (intro allI impI)
    fix st p st'
    assume a: "visit (Suc n) disc st p = Some (Inr st')"
    show "temp_visited st' = temp_visited st"
    proof (cases "p \<in> temp_visited st \<or> p \<in> visited st")
      case True
      with visit_returns_at_once [OF a] show ?thesis by simp
    next
      case False
      then have nt: "p \<notin> temp_visited st" "p \<notin> visited st" by auto
      from a nt obtain m st2 where "map_of disc p = Some m"
        and d: "visit_deps (visit n disc) (st\<lparr>temp_visited := insert p (temp_visited st)\<rparr>) (dependencies m)
              = Some (Inr st2)"
        and st': "st' = st2\<lparr>temp_visited := temp_visited st2 - {p},
                            visited := insert p (visited st2),
                            result := result st2 @ [p]\<rparr>"
        by (rule visit_Suc_returns)
      from keeps_temp_visit_deps [OF Suc d] False st' show ?thesis by auto
    qed
  qed
qed

lemma ends_visit_deps:
  assumes "keeps_temp vis" "ends_at vis (temp_visited st)"
  shows "visit_deps vis st ds \<noteq> None"
  using assms(2)
proof (induction ds arbitrary: st)
  case Nil
  then show ?case by simp
next
  case (Cons d ds)
  from Cons.prems have "vis st d \<noteq> None"
    unfolding ends_at_def by blast
  then obtain r where v: "vis st d = Some r" by (cases "vis st d") auto
  show ?case
  proof (cases r)
    case (Inl e)
    with v show ?thesis by simp
  next
    case (Inr st1)
    with v assms(1) have "temp_visited st1 = temp_visited st"
      by (auto simp: keeps_temp_def)
    with Cons.prems have "ends_at vis (temp_visited st1)" by simp
    from Cons.IH [OF this] v Inr show ?thesis by simp
  qed
qed

lemma visit_ends:
  "card (fst ` set disc - temp_visited st) < n \<Longrightarrow> visit n disc st p \<noteq> None"
proof (induction n arbitrary: st p)
  case 0
  then show ?case by simp
next
  case (Suc n)
  show ?case
  proof (cases "p \<in> temp_visited st \<or> p \<in> visited st \<or> map_of disc p = None")
    case True
    then show ?thesis by auto
  next
    case False
    then obtain m where m: "map_of disc p = Some m" by auto
    let ?st1 = "st\<lparr>temp_visited := insert p (temp_visited st)\<rparr>"
    from m have "p \<in> fst ` set disc"
      by (metis map_of_eq_None_iff option.distinct(1))
    with False have "fst ` set disc - insert p (temp_visited st) \<subset> fst ` set disc - temp_visited st"
      by auto
    then have "card (fst ` set disc - insert p (temp_visited st)) < card (fst ` set disc - temp_visited st)"
      by (intro psubset_card_mono) auto
    with Suc.prems have less: "card (fst ` set disc - insert p (temp_visited st)) < n" by simp
    have "ends_at (visit n disc) (temp_visited ?st1)"
      unfolding ends_at_def using Suc.IH less by auto
    from ends_visit_deps [OF keeps_temp_visit this, of "dependencies m"]
    obtain r where "visit_deps (visit n disc) ?st1 (dependencies m) = Some r"
      by (cases "visit_deps (visit n disc) ?st1 (dependencies m)") auto
    with False m show ?thesis
      by (cases r) auto
  qed
qed

lemma keeps_temp_visit_all:
  "visit_all n disc st ps = Some (Inr st') \<Longrightarrow> temp_visited st' = temp_visited st"
proof (induction ps arbitrary: st)
  case Nil
  then show ?case by simp
next
  case (Cons p ps)
  show ?case
  proof (cases "p \<in> visited st")
    case True
    with Cons show ?thesis by simp
  next
    case False
    with Cons.prems obtain st1 where v: "visit n disc st p = Some (Inr st1)"
      and r: "visit_all n disc st1 ps = Some (Inr st')"
      by (auto split: option.splits sum.splits)
    from keeps_temp_visit [of n disc] v have "temp_visited st1 = temp_visited st"
      by (auto simp: keeps_temp_def)
    with Cons.IH [OF r] show ?thesis by simp
  qed
qed

lemma visit_all_ends:
  "card (fst ` set disc - temp_visited st) < n \<Longrightarrow> visit_all n disc st ps \<noteq> None"
proof (induction ps arbitrary: st)
  case Nil
  then show ?case by simp
next
  case (Cons p ps)
  show ?case
  proof (cases "p \<in> visited st")
    case True
    with Cons show ?thesis by simp
  next
    case False
    from visit_ends [OF Cons.prems, of p] obtain r where v: "visit n disc st p = Some r"
      by (cases "visit n disc st p") auto
    show ?thesis
    proof (cases r)
      case (Inl e)
      with v False show ?thesis by simp
    next
      case (Inr st1)
      with v keeps_temp_visit [of n disc] have "temp_visited st1 = temp_visited st"
        by (auto simp: keeps_temp_def)
      with Cons.prems have "card (fst ` set disc - temp_visited st1) < n" by simp
      from Cons.IH [OF this] v Inr False show ?thesis by simp
    qed
  qed
qed

lemma resolve_dependencies_ends: "resolve_dependencies disc names \<noteq> None"
proof -
  have "card (fst ` set disc) \<le> length disc"
    by (metis card_image_le card_length le_trans List.finite_set)
  then have "card (fst ` set disc - temp_visited \<lparr>visited = {}, temp_visited = {}, result = []\<rparr>)
      < Suc (length disc)"
    by simp
  from visit_all_ends [OF this, of names] show ?thesis
    by (auto simp: resolve_dependencies_def split: option.splits sum.splits)
qed

subsection \<open>What \<open>visit\<close> returns\<close>

lemma deps_first_Nil [simp]: "deps_first disc []"
  by (simp add: deps_first_def)

lemma deps_first_snoc:
  "deps_first disc (xs @ [x]) \<longleftrightarrow>
     deps_first disc xs \<and> map_of disc x \<noteq> None \<and> set (deps_of disc x) \<subseteq> set xs"
proof
  assume a: "deps_first disc (xs @ [x])"
  have "map_of disc (xs ! i) \<noteq> None \<and> set (deps_of disc (xs ! i)) \<subseteq> set (take i xs)"
    if "i < length xs" for i
    using a [unfolded deps_first_def, rule_format, of i] that by (simp add: nth_append)
  moreover have "map_of disc x \<noteq> None \<and> set (deps_of disc x) \<subseteq> set xs"
    using a [unfolded deps_first_def, rule_format, of "length xs"] by simp
  ultimately show "deps_first disc xs \<and> map_of disc x \<noteq> None \<and> set (deps_of disc x) \<subseteq> set xs"
    by (simp add: deps_first_def)
next
  assume a: "deps_first disc xs \<and> map_of disc x \<noteq> None \<and> set (deps_of disc x) \<subseteq> set xs"
  show "deps_first disc (xs @ [x])"
    unfolding deps_first_def
  proof (intro allI impI)
    fix i
    assume "i < length (xs @ [x])"
    then consider "i < length xs" | "i = length xs" by fastforce
    then show "map_of disc ((xs @ [x]) ! i) \<noteq> None \<and>
        set (deps_of disc ((xs @ [x]) ! i)) \<subseteq> set (take i (xs @ [x]))"
    proof cases
      case 1
      with a [unfolded deps_first_def] show ?thesis by (simp add: nth_append)
    next
      case 2
      with a show ?thesis by simp
    qed
  qed
qed

lemma depends_onI: "map_of disc p = Some m \<Longrightarrow> d \<in> set (dependencies m) \<Longrightarrow> (p, d) \<in> depends_on disc"
  by (simp add: depends_on_def deps_of_def)

lemma visit_deps_ok:
  assumes "visit_ok disc vis" "state_ok disc st" "visit_deps vis st ds = Some (Inr st')"
  shows "state_ok disc st' \<and> set ds \<subseteq> visited st' \<and>
     (\<exists>ys. result st' = result st @ ys \<and> set ys \<subseteq> (depends_on disc)\<^sup>* `` set ds)"
  using assms(2,3)
proof (induction ds arbitrary: st)
  case Nil
  then show ?case by simp
next
  case (Cons d ds)
  from Cons.prems(2) obtain st1 where v: "vis st d = Some (Inr st1)"
    and r: "visit_deps vis st1 ds = Some (Inr st')"
    by (auto split: option.splits sum.splits)
  from assms(1) Cons.prems(1) v obtain ys1 where ok1: "state_ok disc st1" and d: "d \<in> visited st1"
    and ys1: "result st1 = result st @ ys1" "set ys1 \<subseteq> (depends_on disc)\<^sup>* `` {d}"
    unfolding visit_ok_def by blast
  from Cons.IH [OF ok1 r] obtain ys2 where ok': "state_ok disc st'" and ds: "set ds \<subseteq> visited st'"
    and ys2: "result st' = result st1 @ ys2" "set ys2 \<subseteq> (depends_on disc)\<^sup>* `` set ds"
    by blast
  from ok1 ok' d ys2(1) have "d \<in> visited st'"
    by (simp add: state_ok_def)
  moreover have "result st' = result st @ (ys1 @ ys2)"
    by (simp add: ys1(1) ys2(1))
  moreover have "set (ys1 @ ys2) \<subseteq> (depends_on disc)\<^sup>* `` set (d # ds)"
    using ys1(2) ys2(2) by auto
  ultimately show ?case using ok' ds by auto
qed

lemma visit_ok_visit: "visit_ok disc (visit n disc)"
proof (induction n)
  case 0
  show ?case
    unfolding visit_ok_def
  proof (intro allI impI, elim conjE)
    fix st p st'
    assume ok: "state_ok disc st" and a: "visit 0 disc st p = Some (Inr st')"
    then have "st' = st \<and> p \<in> visited st" by (auto split: if_splits)
    with ok show "state_ok disc st' \<and> p \<in> visited st' \<and>
        (\<exists>ys. result st' = result st @ ys \<and> set ys \<subseteq> (depends_on disc)\<^sup>* `` {p})"
      by simp
  qed
next
  case (Suc n)
  show ?case
    unfolding visit_ok_def
  proof (intro allI impI, elim conjE)
    fix st p st'
    assume ok: "state_ok disc st" and a: "visit (Suc n) disc st p = Some (Inr st')"
    show "state_ok disc st' \<and> p \<in> visited st' \<and>
        (\<exists>ys. result st' = result st @ ys \<and> set ys \<subseteq> (depends_on disc)\<^sup>* `` {p})"
    proof (cases "p \<in> temp_visited st \<or> p \<in> visited st")
      case True
      with visit_returns_at_once [OF a] ok show ?thesis by simp
    next
      case False
      then have nt: "p \<notin> temp_visited st" "p \<notin> visited st" by auto
      let ?st1 = "st\<lparr>temp_visited := insert p (temp_visited st)\<rparr>"
      from a nt obtain m st2 where m: "map_of disc p = Some m"
        and d: "visit_deps (visit n disc) ?st1 (dependencies m) = Some (Inr st2)"
        and st': "st' = st2\<lparr>temp_visited := temp_visited st2 - {p},
                            visited := insert p (visited st2),
                            result := result st2 @ [p]\<rparr>"
        by (rule visit_Suc_returns)
      from ok nt have ok1: "state_ok disc ?st1"
        by (auto simp: state_ok_def)
      from visit_deps_ok [OF Suc ok1 d] obtain ys where ok2: "state_ok disc st2"
        and ds: "set (dependencies m) \<subseteq> visited st2"
        and ys: "result st2 = result st @ ys" "set ys \<subseteq> (depends_on disc)\<^sup>* `` set (dependencies m)"
        by auto
      from keeps_temp_visit_deps [OF keeps_temp_visit d]
      have t2: "temp_visited st2 = insert p (temp_visited st)" by simp
      from ok2 t2 have p2: "p \<notin> set (result st2)" and v2: "visited st2 = set (result st2)"
        and dis: "temp_visited st \<inter> set (result st2) = {}"
        by (auto simp: state_ok_def)
      have df: "deps_first disc (result st2 @ [p])"
        using ok2 m ds v2 by (simp add: deps_first_snoc state_ok_def deps_of_def)
      have "state_ok disc st'"
        using ok2 p2 v2 dis nt df t2 by (auto simp: state_ok_def st')
      moreover have "p \<in> visited st'" by (simp add: st')
      moreover have "result st' = result st @ (ys @ [p])"
        by (simp add: st' ys(1))
      moreover have "set (ys @ [p]) \<subseteq> (depends_on disc)\<^sup>* `` {p}"
      proof
        fix y
        assume "y \<in> set (ys @ [p])"
        then consider "y = p" | "y \<in> set ys" by auto
        then show "y \<in> (depends_on disc)\<^sup>* `` {p}"
        proof cases
          case 1
          then show ?thesis by simp
        next
          case 2
          with ys(2) obtain dd where dd: "dd \<in> set (dependencies m)" "(dd, y) \<in> (depends_on disc)\<^sup>*"
            by auto
          from depends_onI [OF m dd(1)] dd(2) show ?thesis
            by (auto intro: converse_rtrancl_into_rtrancl)
        qed
      qed
      ultimately show ?thesis by blast
    qed
  qed
qed

lemma visit_all_ok:
  assumes "state_ok disc st" "visit_all n disc st ps = Some (Inr st')"
  shows "state_ok disc st' \<and> set ps \<subseteq> visited st' \<and>
     (\<exists>ys. result st' = result st @ ys \<and> set ys \<subseteq> (depends_on disc)\<^sup>* `` set ps)"
  using assms
proof (induction ps arbitrary: st)
  case Nil
  then show ?case by simp
next
  case (Cons p ps)
  show ?case
  proof (cases "p \<in> visited st")
    case True
    with Cons.prems have r: "visit_all n disc st ps = Some (Inr st')" by simp
    from Cons.IH [OF Cons.prems(1) r] obtain ys where ok': "state_ok disc st'"
      and ps: "set ps \<subseteq> visited st'"
      and ys: "result st' = result st @ ys" "set ys \<subseteq> (depends_on disc)\<^sup>* `` set ps"
      by blast
    from True Cons.prems(1) ok' ys(1) have "p \<in> visited st'"
      by (simp add: state_ok_def)
    moreover from ys(2) have "set ys \<subseteq> (depends_on disc)\<^sup>* `` set (p # ps)" by auto
    ultimately show ?thesis using ok' ps ys(1) by auto
  next
    case False
    with Cons.prems(2) obtain st1 where v: "visit n disc st p = Some (Inr st1)"
      and r: "visit_all n disc st1 ps = Some (Inr st')"
      by (auto split: option.splits sum.splits)
    from visit_ok_visit [of disc n] Cons.prems(1) v obtain ys1 where ok1: "state_ok disc st1"
      and p1: "p \<in> visited st1"
      and ys1: "result st1 = result st @ ys1" "set ys1 \<subseteq> (depends_on disc)\<^sup>* `` {p}"
      unfolding visit_ok_def by blast
    from Cons.IH [OF ok1 r] obtain ys2 where ok': "state_ok disc st'"
      and ps: "set ps \<subseteq> visited st'"
      and ys2: "result st' = result st1 @ ys2" "set ys2 \<subseteq> (depends_on disc)\<^sup>* `` set ps"
      by blast
    from ok1 ok' p1 ys2(1) have "p \<in> visited st'"
      by (simp add: state_ok_def)
    moreover have "result st' = result st @ (ys1 @ ys2)"
      by (simp add: ys1(1) ys2(1))
    moreover have "set (ys1 @ ys2) \<subseteq> (depends_on disc)\<^sup>* `` set (p # ps)"
      using ys1(2) ys2(2) by auto
    ultimately show ?thesis using ok' ps by auto
  qed
qed

lemma state_ok_initial: "state_ok disc \<lparr>visited = {}, temp_visited = {}, result = []\<rparr>"
  by (simp add: state_ok_def)

lemma resolve_dependencies_returns:
  assumes "resolve_dependencies disc names = Some (Inr order)"
  shows "distinct order \<and> deps_first disc order \<and> set names \<subseteq> set order \<and>
     set order \<subseteq> (depends_on disc)\<^sup>* `` set names"
proof -
  from assms obtain st where
    v: "visit_all (Suc (length disc)) disc \<lparr>visited = {}, temp_visited = {}, result = []\<rparr> names
          = Some (Inr st)"
    and o: "order = result st"
    by (auto simp: resolve_dependencies_def split: option.splits sum.splits)
  from visit_all_ok [OF state_ok_initial v] o show ?thesis
    by (auto simp: state_ok_def)
qed

subsection \<open>What \<open>visit\<close> raises\<close>

lemma visit_Suc_raises:
  assumes "visit (Suc n) disc st p = Some (Inl e)" "p \<notin> temp_visited st" "map_of disc p = Some m"
  shows "visit_deps (visit n disc) (st\<lparr>temp_visited := insert p (temp_visited st)\<rparr>) (dependencies m)
           = Some (Inl e)"
proof (cases "visit_deps (visit n disc) (st\<lparr>temp_visited := insert p (temp_visited st)\<rparr>) (dependencies m)")
  case None
  with assms show ?thesis by (simp split: if_splits)
next
  case (Some r)
  with assms show ?thesis by (cases r) (simp_all split: if_splits)
qed

lemma error_ok_step:
  assumes "(p, d) \<in> depends_on disc" "error_ok disc d e"
  shows "error_ok disc p e"
  using assms by (cases e) (auto simp: error_ok_def intro: converse_rtrancl_into_rtrancl)

lemma visit_deps_fails:
  assumes "keeps_temp vis" "fails_ok disc vis"
    and "\<forall>t \<in> temp_visited st. \<forall>d \<in> set ds. (t, d) \<in> (depends_on disc)\<^sup>+"
    and "visit_deps vis st ds = Some (Inl e)"
  shows "\<exists>d \<in> set ds. error_ok disc d e"
  using assms(3,4)
proof (induction ds arbitrary: st)
  case Nil
  then show ?case by simp
next
  case (Cons d ds)
  from Cons.prems(2) obtain r where v: "vis st d = Some r"
    by (cases "vis st d") auto
  show ?case
  proof (cases r)
    case (Inl e')
    with v Cons.prems(2) have "vis st d = Some (Inl e)" by simp
    moreover from Cons.prems(1) have "\<forall>t \<in> temp_visited st. (t, d) \<in> (depends_on disc)\<^sup>+" by simp
    ultimately have "error_ok disc d e"
      using assms(2) unfolding fails_ok_def by blast
    then show ?thesis by simp
  next
    case (Inr st1)
    with v Cons.prems(2) have r: "visit_deps vis st1 ds = Some (Inl e)" by simp
    from v Inr assms(1) have "temp_visited st1 = temp_visited st"
      by (auto simp: keeps_temp_def)
    with Cons.prems(1) have "\<forall>t \<in> temp_visited st1. \<forall>d \<in> set ds. (t, d) \<in> (depends_on disc)\<^sup>+"
      by simp
    from Cons.IH [OF this r] show ?thesis by auto
  qed
qed

lemma visit_raises_at_once:
  assumes "visit n disc st p = Some (Inl e)" "p \<in> temp_visited st \<or> map_of disc p = None"
  shows "e = CircularDependencyInvolving p \<and> p \<in> temp_visited st \<or>
         e = DependencyNotFound p \<and> map_of disc p = None"
  using assms by (cases n) (auto split: if_splits)

lemma fails_ok_visit: "fails_ok disc (visit n disc)"
proof (induction n)
  case 0
  show ?case
    unfolding fails_ok_def
  proof (intro allI impI, elim conjE)
    fix st p e
    assume pre: "\<forall>t \<in> temp_visited st. (t, p) \<in> (depends_on disc)\<^sup>+"
      and a: "visit 0 disc st p = Some (Inl e)"
    from a have "p \<in> temp_visited st \<or> map_of disc p = None"
      by (auto split: if_splits)
    from visit_raises_at_once [OF a this] pre show "error_ok disc p e"
      by (auto simp: error_ok_def)
  qed
next
  case (Suc n)
  show ?case
    unfolding fails_ok_def
  proof (intro allI impI, elim conjE)
    fix st p e
    assume pre: "\<forall>t \<in> temp_visited st. (t, p) \<in> (depends_on disc)\<^sup>+"
      and a: "visit (Suc n) disc st p = Some (Inl e)"
    show "error_ok disc p e"
    proof (cases "p \<in> temp_visited st \<or> map_of disc p = None")
      case True
      from visit_raises_at_once [OF a this] pre show ?thesis
        by (auto simp: error_ok_def)
    next
      case False
      then obtain m where nt: "p \<notin> temp_visited st" and m: "map_of disc p = Some m" by auto
      let ?st1 = "st\<lparr>temp_visited := insert p (temp_visited st)\<rparr>"
      have "\<forall>t \<in> temp_visited ?st1. \<forall>d \<in> set (dependencies m). (t, d) \<in> (depends_on disc)\<^sup>+"
      proof (intro ballI)
        fix t d
        assume t: "t \<in> temp_visited ?st1" and d: "d \<in> set (dependencies m)"
        from depends_onI [OF m d] have pd: "(p, d) \<in> depends_on disc" .
        show "(t, d) \<in> (depends_on disc)\<^sup>+"
        proof (cases "t = p")
          case True
          with pd show ?thesis by auto
        next
          case False
          with t pre have "(t, p) \<in> (depends_on disc)\<^sup>+" by simp
          then show ?thesis using pd by (rule trancl_into_trancl)
        qed
      qed
      from visit_deps_fails [OF keeps_temp_visit Suc this visit_Suc_raises [OF a nt m]]
      obtain d where d: "d \<in> set (dependencies m)" "error_ok disc d e" by blast
      from error_ok_step [OF depends_onI [OF m d(1)] d(2)] show ?thesis .
    qed
  qed
qed

lemma visit_all_fails:
  assumes "temp_visited st = {}" "visit_all n disc st ps = Some (Inl e)"
  shows "\<exists>p \<in> set ps. error_ok disc p e"
  using assms
proof (induction ps arbitrary: st)
  case Nil
  then show ?case by simp
next
  case (Cons p ps)
  show ?case
  proof (cases "p \<in> visited st")
    case True
    with Cons.prems have "visit_all n disc st ps = Some (Inl e)" by simp
    from Cons.IH [OF Cons.prems(1) this] show ?thesis by auto
  next
    case False
    with Cons.prems(2) obtain r where v: "visit n disc st p = Some r"
      by (cases "visit n disc st p") auto
    show ?thesis
    proof (cases r)
      case (Inl e')
      with v False Cons.prems(2) have "visit n disc st p = Some (Inl e)" by simp
      with fails_ok_visit [of disc n] Cons.prems(1) have "error_ok disc p e"
        unfolding fails_ok_def by blast
      then show ?thesis by simp
    next
      case (Inr st1)
      with v False Cons.prems(2) have r: "visit_all n disc st1 ps = Some (Inl e)" by simp
      from v Inr keeps_temp_visit [of n disc] Cons.prems(1) have "temp_visited st1 = {}"
        by (auto simp: keeps_temp_def)
      from Cons.IH [OF this r] show ?thesis by auto
    qed
  qed
qed

lemma resolve_dependencies_raises:
  assumes "resolve_dependencies disc names = Some (Inl e)"
  shows "\<exists>p \<in> set names. error_ok disc p e"
proof -
  from assms have
    "visit_all (Suc (length disc)) disc \<lparr>visited = {}, temp_visited = {}, result = []\<rparr> names
       = Some (Inl e)"
    by (auto simp: resolve_dependencies_def split: option.splits sum.splits)
  then show ?thesis by (intro visit_all_fails) simp_all
qed

subsection \<open>A load order admits no cycle and no missing dependency\<close>

lemma deps_first_step:
  assumes "deps_first disc xs" "x \<in> set xs" "(x, y) \<in> depends_on disc"
  shows "y \<in> set xs"
proof -
  from assms(2) obtain i where i: "i < length xs" "xs ! i = x"
    by (auto simp: in_set_conv_nth)
  with assms(1) have "set (deps_of disc x) \<subseteq> set (take i xs)"
    by (auto simp: deps_first_def)
  with assms(3) have "y \<in> set (take i xs)"
    by (auto simp: depends_on_def)
  then show ?thesis by (rule in_set_takeD)
qed

lemma deps_first_closed:
  assumes "deps_first disc xs" "(x, y) \<in> (depends_on disc)\<^sup>*" "x \<in> set xs"
  shows "y \<in> set xs"
  using assms(2,3)
  by (induction rule: rtrancl_induct) (auto intro: deps_first_step [OF assms(1)])

lemma deps_first_discovered:
  assumes "deps_first disc xs" "x \<in> set xs"
  shows "map_of disc x \<noteq> None"
  using assms by (auto simp: deps_first_def in_set_conv_nth)

lemma deps_first_no_cycle:
  assumes "deps_first disc xs" "distinct xs" "x \<in> set xs"
  shows "(x, x) \<notin> (depends_on disc)\<^sup>+"
  using assms
proof (induction xs rule: rev_induct)
  case Nil
  then show ?case by simp
next
  case (snoc a xs)
  from snoc.prems(1) have df: "deps_first disc xs" and da: "set (deps_of disc a) \<subseteq> set xs"
    by (simp_all add: deps_first_snoc)
  from snoc.prems(2) have dx: "distinct xs" and a: "a \<notin> set xs" by simp_all
  show ?case
  proof (cases "x = a")
    case False
    with snoc.prems(3) have "x \<in> set xs" by simp
    from snoc.IH [OF df dx this] show ?thesis .
  next
    case True
    show ?thesis
    proof
      assume "(x, x) \<in> (depends_on disc)\<^sup>+"
      with True obtain y where y: "(a, y) \<in> depends_on disc" "(y, a) \<in> (depends_on disc)\<^sup>*"
        by (auto dest: tranclD)
      from y(1) da have "y \<in> set xs" by (auto simp: depends_on_def)
      from deps_first_closed [OF df y(2) this] a show False by simp
    qed
  qed
qed

subsection \<open>The order of the requests\<close>



subsection \<open>The claims about dependency resolution\<close>


lemma ex_cyclic_env_depends_on:
  "(''a'', ''b'') \<in> depends_on (discovered_plugins ex_cyclic_env)"
  "(''b'', ''a'') \<in> depends_on (discovered_plugins ex_cyclic_env)"
  "(''c'', ''missing'') \<in> depends_on (discovered_plugins ex_cyclic_env)"
  by (simp_all add: depends_on_def deps_of_def ex_cyclic_env_def ex_manifest_def)




text \<open>
  C3. Where a requested plugin is, or depends (directly or through other plugins) on, a
  plugin that lies on a dependency cycle or is not discovered, \<open>load_plugins\<close> raises the
  \<open>PluginDependencyError\<close> of \<open>resolve_dependencies\<close>, which names a plugin on a cycle or
  a plugin that is not discovered, in either case one that a requested plugin is or
  depends on. The manager is then as it was before the call: no plugin class has been
  loaded or called, nothing was registered and no event was published.
\<close>

theorem load_plugins_dependency_error:
  assumes "p \<in> set names"
    and "(p, x) \<in> (depends_on (discovered_plugins env))\<^sup>*"
    and "(x, x) \<in> (depends_on (discovered_plugins env))\<^sup>+ \<or> map_of (discovered_plugins env) x = None"
  shows "\<exists>e. load_plugins env m names = Some (Inl (PluginDependencyError e), m) \<and>
     ((\<exists>c. e = CircularDependencyInvolving c \<and>
           (c, c) \<in> (depends_on (discovered_plugins env))\<^sup>+ \<and>
           (\<exists>q \<in> set names. (q, c) \<in> (depends_on (discovered_plugins env))\<^sup>*)) \<or>
      (\<exists>d. e = DependencyNotFound d \<and>
           map_of (discovered_plugins env) d = None \<and>
           (\<exists>q \<in> set names. (q, d) \<in> (depends_on (discovered_plugins env))\<^sup>*)))"
proof -
  let ?disc = "discovered_plugins env"
  obtain r where r: "resolve_dependencies ?disc names = Some r"
    using resolve_dependencies_ends [of ?disc names]
    by (cases "resolve_dependencies ?disc names") auto
  have "\<exists>e. r = Inl e"
  proof (cases r)
    case (Inl e)
    then show ?thesis by simp
  next
    case (Inr order)
    with r resolve_dependencies_returns [of ?disc names order]
    have dist: "distinct order" and df: "deps_first ?disc order" and sub: "set names \<subseteq> set order"
      by simp_all
    from assms(1) sub have "p \<in> set order" by auto
    from deps_first_closed [OF df assms(2) this] have x: "x \<in> set order" .
    from deps_first_discovered [OF df x] deps_first_no_cycle [OF df dist x] assms(3)
    show ?thesis by simp
  qed
  then obtain e where e: "resolve_dependencies ?disc names = Some (Inl e)"
    using r by auto
  from resolve_dependencies_raises [OF e] obtain q where q: "q \<in> set names" "error_ok ?disc q e"
    by blast
  have "load_plugins env m names = Some (Inl (PluginDependencyError e), m)"
    by (simp add: load_plugins_def e)
  moreover from q have "(\<exists>c. e = CircularDependencyInvolving c \<and>
           (c, c) \<in> (depends_on ?disc)\<^sup>+ \<and> (\<exists>q \<in> set names. (q, c) \<in> (depends_on ?disc)\<^sup>*)) \<or>
      (\<exists>d. e = DependencyNotFound d \<and> map_of ?disc d = None \<and>
           (\<exists>q \<in> set names. (q, d) \<in> (depends_on ?disc)\<^sup>*))"
    by (cases e) (auto simp: error_ok_def)
  ultimately show ?thesis by blast
qed

theorem load_plugins_dependency_error_witness:
  "''a'' \<in> set [''a'', ''c''] \<and>
   (''a'', ''b'') \<in> (depends_on (discovered_plugins ex_cyclic_env))\<^sup>* \<and>
   (''b'', ''b'') \<in> (depends_on (discovered_plugins ex_cyclic_env))\<^sup>+ \<and>
   load_plugins ex_cyclic_env new_plugin_manager [''a'', ''c''] =
     Some (Inl (PluginDependencyError (CircularDependencyInvolving ''a'')), new_plugin_manager) \<and>
   (''a'', ''a'') \<in> (depends_on (discovered_plugins ex_cyclic_env))\<^sup>+ \<and>
   constructor_calls new_plugin_manager = [] \<and>
   load_plugins ex_cyclic_env new_plugin_manager [''c''] =
     Some (Inl (PluginDependencyError (DependencyNotFound ''missing'')), new_plugin_manager)"
proof -
  have ab: "(''a'', ''b'') \<in> (depends_on (discovered_plugins ex_cyclic_env))\<^sup>*"
    using ex_cyclic_env_depends_on(1) by auto
  have bb: "(''b'', ''b'') \<in> (depends_on (discovered_plugins ex_cyclic_env))\<^sup>+"
    using ex_cyclic_env_depends_on(1,2) by (meson trancl.simps)
  have ev: "load_plugins ex_cyclic_env new_plugin_manager [''a'', ''c''] =
     Some (Inl (PluginDependencyError (CircularDependencyInvolving ''a'')), new_plugin_manager)"
    "load_plugins ex_cyclic_env new_plugin_manager [''c''] =
     Some (Inl (PluginDependencyError (DependencyNotFound ''missing'')), new_plugin_manager)"
    by (simp_all add: load_plugins_def resolve_dependencies_def ex_cyclic_env_def ex_manifest_def)
  have "''a'' \<in> set [''a'', ''c'']" by simp
  from load_plugins_dependency_error [OF this ab, of new_plugin_manager] bb ev(1)
  have "(''a'', ''a'') \<in> (depends_on (discovered_plugins ex_cyclic_env))\<^sup>+"
    by auto
  with ab bb ev show ?thesis
    by (simp add: new_plugin_manager_def)
qed

end
